theory Spec2Isabelle
  imports Complex_Main "HOL-Library.Word"
begin

section \<open>Python values shared by the two extraction scripts\<close>

text \<open>
  A Python \<open>str\<close> is a sequence of Unicode code points and \<open>len\<close> counts code points,
  so a string is a list of code points. The literals of the scripts are ASCII and are
  written as HOL strings, converted by \<open>lit\<close>. \<open>bytes\<close> is a list of octets.
\<close>

type_synonym pystr = "nat list"

type_synonym bytes = "8 word list"

definition lit :: "string \<Rightarrow> pystr" where
  "lit s = map of_char s"

text \<open>\<open>str.isspace\<close> for one code point: the characters \<open>str.strip()\<close> removes.\<close>

definition isspace :: "nat \<Rightarrow> bool" where
  "isspace c \<longleftrightarrow>
     (9 \<le> c \<and> c \<le> 13) \<or> (28 \<le> c \<and> c \<le> 32) \<or> c = 133 \<or> c = 160 \<or> c = 5760 \<or>
     (8192 \<le> c \<and> c \<le> 8202) \<or> c = 8232 \<or> c = 8233 \<or> c = 8239 \<or> c = 8287 \<or> c = 12288"

definition strip :: "pystr \<Rightarrow> pystr" where
  "strip s = rev (dropWhile isspace (rev (dropWhile isspace s)))"

text \<open>\<open>sep.join(parts)\<close>.\<close>

fun join :: "pystr \<Rightarrow> pystr list \<Rightarrow> pystr" where
  "join sep [] = []"
| "join sep [x] = x"
| "join sep (x # y # ys) = x @ sep @ join sep (y # ys)"

text \<open>\<open>s[a:b]\<close> with Python's treatment of negative and out-of-range bounds.\<close>

definition py_slice :: "'a list \<Rightarrow> int \<Rightarrow> int \<Rightarrow> 'a list" where
  "py_slice s a b =
     (let n = int (length s);
          lo = (if a < 0 then max 0 (a + n) else min a n);
          hi = (if b < 0 then max 0 (b + n) else min b n)
      in take (nat (hi - lo)) (drop (nat lo) s))"

text \<open>\<open>str(i)\<close> for an integer, as the f-strings of the image script format it.\<close>

function digits_of :: "nat \<Rightarrow> pystr" where
  "digits_of n = (if n < 10 then [48 + n] else digits_of (n div 10) @ [48 + n mod 10])"
  by pat_completeness auto
termination
  by (relation "measure id") auto

definition str_int :: "int \<Rightarrow> pystr" where
  "str_int i = (if i < 0 then 45 # digits_of (nat (- i)) else digits_of (nat i))"

text \<open>\<open>enumerate(xs)\<close>, counting in Python integers.\<close>

fun enumerate_from :: "int \<Rightarrow> 'a list \<Rightarrow> (int \<times> 'a) list" where
  "enumerate_from i [] = []"
| "enumerate_from i (x # xs) = (i, x) # enumerate_from (i + 1) xs"

text \<open>\<open>os.path.join(a, b)\<close> of \<open>posixpath\<close>, for two components.\<close>

definition path_join :: "pystr \<Rightarrow> pystr \<Rightarrow> pystr" where
  "path_join a b =
     (if b \<noteq> [] \<and> hd b = 47 then b
      else if a = [] \<or> last a = 47 then a @ b
      else a @ [47] @ b)"

text \<open>
  \<open>base64.b64encode(data).decode('utf-8')\<close>: the standard alphabet of RFC 4648 with
  \<open>=\<close> padding, three octets to four characters. \<open>b64decode\<close> is the decoding of the
  same RFC, which is what \<open>base64.b64decode\<close> computes on a canonical encoding.
\<close>

definition b64_char :: "nat \<Rightarrow> nat" where
  "b64_char v =
     (if v < 26 then 65 + v
      else if v < 52 then 97 + (v - 26)
      else if v < 62 then 48 + (v - 52)
      else if v = 62 then 43 else 47)"

definition b64_value :: "nat \<Rightarrow> nat option" where
  "b64_value c =
     (if 65 \<le> c \<and> c \<le> 90 then Some (c - 65)
      else if 97 \<le> c \<and> c \<le> 122 then Some (c - 97 + 26)
      else if 48 \<le> c \<and> c \<le> 57 then Some (c - 48 + 52)
      else if c = 43 then Some 62
      else if c = 47 then Some 63
      else None)"

fun b64encode :: "bytes \<Rightarrow> pystr" where
  "b64encode [] = []"
| "b64encode [a] =
     (let x = unat a
      in [b64_char (x div 4), b64_char ((x mod 4) * 16), 61, 61])"
| "b64encode [a, b] =
     (let x = unat a; y = unat b
      in [b64_char (x div 4), b64_char ((x mod 4) * 16 + y div 16),
          b64_char ((y mod 16) * 4), 61])"
| "b64encode (a # b # c # rest) =
     (let x = unat a; y = unat b; z = unat c
      in [b64_char (x div 4), b64_char ((x mod 4) * 16 + y div 16),
          b64_char ((y mod 16) * 4 + z div 64), b64_char (z mod 64)]) @ b64encode rest"

fun b64decode :: "pystr \<Rightarrow> bytes option" where
  "b64decode [] = Some []"
| "b64decode (c1 # c2 # c3 # c4 # rest) =
     (case (b64_value c1, b64_value c2) of
        (Some v1, Some v2) \<Rightarrow>
          (if c3 = 61 \<and> c4 = 61 \<and> rest = [] then Some [of_nat (v1 * 4 + v2 div 16)]
           else
             (case b64_value c3 of
                None \<Rightarrow> None
              | Some v3 \<Rightarrow>
                  (if c4 = 61 \<and> rest = [] then
                     Some [of_nat (v1 * 4 + v2 div 16), of_nat ((v2 mod 16) * 16 + v3 div 4)]
                   else
                     (case b64_value c4 of
                        None \<Rightarrow> None
                      | Some v4 \<Rightarrow>
                          (case b64decode rest of
                             None \<Rightarrow> None
                           | Some bs \<Rightarrow>
                               Some (of_nat (v1 * 4 + v2 div 16) #
                                     of_nat ((v2 mod 16) * 16 + v3 div 4) #
                                     of_nat ((v3 mod 4) * 64 + v4) # bs))))))
      | _ \<Rightarrow> None)"
| "b64decode _ = None"

text \<open>
  The exceptions the scripts catch around their work, each carrying \<open>str(e)\<close>. The three
  constructors stand for the three \<open>except\<close> clauses, in the source's order.
\<close>

datatype exc = FileDataError pystr | EmptyFileError pystr | OtherException pystr

text \<open>
  What the scripts can see of a document that \<open>fitz.open\<close> returned. Every call on it
  may raise, and outside the inner \<open>try\<close> of the image script an exception reaches the
  \<open>except\<close> clauses of the function: \<open>len(doc)\<close> raises (\<open>len_raises\<close>) or gives the
  number of \<open>doc_pages\<close>; the entry of a page is \<open>Inl e\<close> when reading that page raises
  \<open>e\<close>, otherwise what the script reads from it; \<open>doc.close()\<close> raises
  (\<open>close_raises\<close>) or returns.
\<close>

record 'p document =
  len_raises :: "exc option"
  doc_pages :: "(exc + 'p) list"
  close_raises :: "exc option"

section \<open>The JSON objects the scripts print\<close>

text \<open>One entry of \<open>pages\<close> in the text extractor's result.\<close>

record page_record =
  pageNumber :: int
  "text" :: pystr
  startOffset :: int
  endOffset :: int

text \<open>
  One entry of \<open>images\<close> in the image extractor's result (\<open>image_info\<close> in the source).
  The keys set only on some paths are optional.
\<close>

record image_info =
  pageNumber :: int
  imageIndex :: int
  filename :: pystr
  width :: int
  height :: int
  colorspace :: int
  bitsPerComponent :: int
  xref :: int
  extension :: pystr
  sizeBytes :: int
  bbox :: "real list option"
  filepath :: "pystr option"
  base64 :: "pystr option"
  mimeType :: "pystr option"

text \<open>
  The result dictionary of either script: the text extractor sets \<open>text\<close> and \<open>pages\<close>, the
  image extractor \<open>images\<close> and \<open>totalImages\<close>; a key the dictionary does not have is
  \<open>None\<close>.
\<close>

record result =
  success :: bool
  "text" :: "pystr option"
  pageCount :: "int option"
  pages :: "page_record list option"
  images :: "image_info list option"
  totalImages :: "int option"
  error :: "pystr option"
  "method" :: pystr

definition failure :: "pystr \<Rightarrow> int option \<Rightarrow> result" where
  "failure msg pc =
     \<lparr>success = False, result.text = None, pageCount = pc, pages = None, images = None,
      totalImages = None, error = Some msg, method = lit ''pymupdf''\<rparr>"

text \<open>
  What a run of \<open>main\<close> leaves behind: the paths handed to \<open>fitz.open\<close> (the first call
  into the PDF library that either script makes; every other one is on the document it
  returns), the objects printed to standard output as JSON, and the exit status. A run that
  ends in an exception nobody catches is \<open>Uncaught\<close>.
\<close>

datatype outcome =
    Exited (opened: "pystr list") (stdout: "result list") (exit_code: int)
  | Uncaught

section \<open>The text extractor (scripts/extract-pdf-pymupdf.py)\<close>

text \<open>The three accumulators of the page loop.\<close>

record extract_state =
  text_parts :: "pystr list"
  pages_data :: "page_record list"
  current_offset :: int

text \<open>
  For the text extractor a page is what \<open>doc[page_num]\<close> followed by \<open>page.get_text()\<close>
  gives: the text, or the exception one of the two raises. \<open>page_loop\<close> is
  \<open>for page_num in range(page_count)\<close>, the second argument being \<open>page_num\<close>; it ends
  in \<open>Inl e\<close> when \<open>e\<close> is raised.
\<close>

fun page_loop :: "(exc + pystr) list \<Rightarrow> int \<Rightarrow> extract_state \<Rightarrow> exc + extract_state" where
  "page_loop [] page_num st = Inr st"
| "page_loop (Inl e # rest) page_num st = Inl e"
| "page_loop (Inr t # rest) page_num st =
     page_loop rest (page_num + 1)
       (if strip t \<noteq> [] then
          (let start_offset = current_offset st;
               end_offset = current_offset st + int (length t)
           in \<lparr>text_parts = text_parts st @ [t],
               pages_data = pages_data st @
                 [\<lparr>page_record.pageNumber = page_num + 1, page_record.text = t,
                   startOffset = start_offset, endOffset = end_offset\<rparr>],
               current_offset = end_offset + 2\<rparr>)
        else st)"

definition no_text_message :: pystr where
  "no_text_message = lit (''No text could be extracted from this PDF. It might be a '' @
     ''scanned document or contain only images. Consider using OCR software.'')"

text \<open>The three \<open>except\<close> clauses of \<open>extract_text_from_pdf\<close>.\<close>

fun text_handlers :: "exc \<Rightarrow> result" where
  "text_handlers (FileDataError e) = failure (lit ''Invalid or corrupted PDF file: '' @ e) None"
| "text_handlers (EmptyFileError e) = failure (lit ''PDF file is empty: '' @ e) None"
| "text_handlers (OtherException e) = failure (lit ''Unable to parse PDF: '' @ e) None"

definition extract_text_from_pdf ::
  "(pystr \<Rightarrow> exc + pystr document) \<Rightarrow> pystr \<Rightarrow> result" where
  "extract_text_from_pdf fitz_open pdf_path =
     (case fitz_open pdf_path of
        Inl e \<Rightarrow> text_handlers e
      | Inr doc \<Rightarrow>
          (case len_raises doc of
             Some e \<Rightarrow> text_handlers e
           | None \<Rightarrow>
               (let page_count = int (length (doc_pages doc))
                in case page_loop (doc_pages doc) 0
                          \<lparr>text_parts = [], pages_data = [], current_offset = 0\<rparr> of
                     Inl e \<Rightarrow> text_handlers e
                   | Inr st \<Rightarrow>
                       (let full_text = join [10, 10] (text_parts st)
                        in case close_raises doc of
                             Some e \<Rightarrow> text_handlers e
                           | None \<Rightarrow>
                               if full_text = [] \<or> int (length (strip full_text)) < 100
                               then failure no_text_message (Some page_count)
                               else \<lparr>success = True, result.text = Some full_text,
                                     pageCount = Some page_count,
                                     pages = Some (pages_data st),
                                     images = None, totalImages = None,
                                     error = None, method = lit ''pymupdf''\<rparr>))))"

definition text_usage :: result where
  "text_usage = failure (lit ''Usage: python3 extract-pdf-pymupdf.py <pdf_file_path>'') None"

text \<open>\<open>main\<close> of the text extractor; \<open>argv\<close> is \<open>sys.argv\<close>, the script's name first.\<close>

definition main_text :: "(pystr \<Rightarrow> exc + pystr document) \<Rightarrow> pystr list \<Rightarrow> outcome" where
  "main_text fitz_open argv =
     (if length argv < 2 then Exited [] [text_usage] 1
      else
        (let pdf_path = argv ! 1;
             res = extract_text_from_pdf fitz_open pdf_path
         in Exited [pdf_path] [res] (if success res then 0 else 1)))"

section \<open>The image extractor (scripts/extract-pdf-images.py)\<close>

text \<open>
  The dictionary \<open>doc.extract_image(xref)\<close> returns. \<open>image\<close> and \<open>ext\<close> are read with
  \<open>base_image[...]\<close>, which raises \<open>KeyError\<close> when the key is missing; the other four with
  \<open>.get(key, default)\<close>.
\<close>

record base_image =
  image_key :: "bytes option"
  ext_key :: "pystr option"
  width_key :: "int option"
  height_key :: "int option"
  colorspace_key :: "int option"
  bpc_key :: "int option"

text \<open>
  The three ways a call of \<open>doc.extract_image\<close> ends: it raises, it returns a value that is
  false in a condition (\<open>None\<close> or an empty dictionary), or it returns a dictionary.
\<close>

datatype extracted = ExtractRaises | ExtractEmpty | ExtractDict base_image

text \<open>
  A page of the image extractor (the entry of \<open>doc_pages\<close> is \<open>Inl e\<close> when
  \<open>doc[page_num]\<close> raises \<open>e\<close>): \<open>page.get_images(full=True)\<close> raises or returns a list,
  and each \<open>img_info\<close> of the list stands for what \<open>img_info[0]\<close> does, raise or give the
  \<open>xref\<close>; \<open>page.get_image_rects(xref)\<close> gives rectangles \<open>(x0, y0, x1, y1)\<close>, \<open>None\<close>
  where the call raises. The document adds \<open>doc.extract_image\<close>.
\<close>

record image_page =
  get_images :: "exc + (exc + int) list"
  get_image_rects :: "int \<Rightarrow> (real \<times> real \<times> real \<times> real) list option"

record image_doc = "image_page document" +
  extract_image :: "int \<Rightarrow> extracted"

text \<open>
  What the script sees of the world: \<open>fitz.open\<close>, whether \<open>open(filepath, "wb")\<close> and the
  write succeed, \<open>os.path.exists\<close>, and whether \<open>os.makedirs\<close> succeeds.
\<close>

record image_env =
  open_doc :: "pystr \<Rightarrow> exc + image_doc"
  writable :: "pystr \<Rightarrow> bool"
  path_exists :: "pystr \<Rightarrow> bool"
  makedirs_ok :: "pystr \<Rightarrow> bool"

text \<open>
  The accumulators of the two nested loops, with the files written so far (path and
  content, in order).
\<close>

record images_state =
  images_data :: "image_info list"
  total_extracted :: int
  written :: "(pystr \<times> bytes) list"

text \<open>\<open>if output_dir:\<close> holds for a string that is not empty.\<close>

fun truthy :: "pystr option \<Rightarrow> bool" where
  "truthy None = False"
| "truthy (Some d) = (d \<noteq> [])"

fun dir_of :: "pystr option \<Rightarrow> pystr" where
  "dir_of None = []"
| "dir_of (Some d) = d"

text \<open>\<open>f"page_{page_num + 1}_img_{img_index}.{image_ext}"\<close>.\<close>

definition image_filename :: "int \<Rightarrow> int \<Rightarrow> pystr \<Rightarrow> pystr" where
  "image_filename page_num img_index image_ext =
     lit ''page_'' @ str_int (page_num + 1) @ lit ''_img_'' @ str_int img_index @
     lit ''.'' @ image_ext"

text \<open>
  The body of the inner \<open>try\<close> for one candidate image: \<open>None\<close> where the source reaches
  \<open>continue\<close> (directly, or through \<open>except Exception\<close>), otherwise the record to append
  and the file written, if any.
\<close>

definition process_image ::
  "image_env \<Rightarrow> image_doc \<Rightarrow> image_page \<Rightarrow> pystr option \<Rightarrow> int \<Rightarrow> int \<Rightarrow> int \<Rightarrow> int \<Rightarrow>
     (image_info \<times> (pystr \<times> bytes) option) option" where
  "process_image env doc page output_dir min_size page_num img_index xr =
     (case extract_image doc xr of
        ExtractRaises \<Rightarrow> None
      | ExtractEmpty \<Rightarrow> None
      | ExtractDict base_image \<Rightarrow>
          (case image_key base_image of
             None \<Rightarrow> None
           | Some image_bytes \<Rightarrow>
               (case ext_key base_image of
                  None \<Rightarrow> None
                | Some image_ext \<Rightarrow>
                    (let w = (case width_key base_image of None \<Rightarrow> 0 | Some v \<Rightarrow> v);
                         h = (case height_key base_image of None \<Rightarrow> 0 | Some v \<Rightarrow> v);
                         cs = (case colorspace_key base_image of None \<Rightarrow> 0 | Some v \<Rightarrow> v);
                         bpc = (case bpc_key base_image of None \<Rightarrow> 8 | Some v \<Rightarrow> v)
                     in if w < min_size \<or> h < min_size then None
                        else
                          (case get_image_rects page xr of
                             None \<Rightarrow> None
                           | Some rects \<Rightarrow>
                               (let bb = (case rects of
                                            [] \<Rightarrow> None
                                          | (x0, y0, x1, y1) # _ \<Rightarrow> Some [x0, y0, x1, y1]);
                                    fname = image_filename page_num img_index image_ext;
                                    info = \<lparr>image_info.pageNumber = page_num + 1,
                                            imageIndex = img_index,
                                            filename = fname,
                                            width = w, height = h, colorspace = cs,
                                            bitsPerComponent = bpc, xref = xr,
                                            extension = image_ext,
                                            sizeBytes = int (length image_bytes),
                                            bbox = bb, filepath = None, base64 = None,
                                            mimeType = None\<rparr>
                                in if truthy output_dir then
                                     (let fpath = path_join (dir_of output_dir) fname
                                      in if writable env fpath
                                         then Some (info\<lparr>filepath := Some fpath\<rparr>,
                                                    Some (fpath, image_bytes))
                                         else None)
                                   else
                                     Some (info\<lparr>base64 := Some (b64encode image_bytes),
                                                mimeType := Some (lit ''image/'' @ image_ext)\<rparr>,
                                           None)))))))"

text \<open>\<open>images_data.append(image_info)\<close> and \<open>total_extracted += 1\<close>, after the write.\<close>

definition accept :: "image_info \<times> (pystr \<times> bytes) option \<Rightarrow> images_state \<Rightarrow> images_state" where
  "accept a st =
     \<lparr>images_data = images_data st @ [fst a],
      total_extracted = total_extracted st + 1,
      written = written st @ (case snd a of None \<Rightarrow> [] | Some f \<Rightarrow> [f])\<rparr>"

text \<open>
  \<open>for img_index, img_info in enumerate(image_list)\<close>, with its \<open>break\<close>. The loops
  return the accumulators and the exception that left them, if any: \<open>xref = img_info[0]\<close>
  is outside the inner \<open>try\<close>.
\<close>

fun image_loop ::
  "image_env \<Rightarrow> image_doc \<Rightarrow> image_page \<Rightarrow> pystr option \<Rightarrow> int \<Rightarrow> int \<Rightarrow> int \<Rightarrow>
     (int \<times> (exc + int)) list \<Rightarrow> images_state \<Rightarrow> images_state \<times> exc option" where
  "image_loop env doc page output_dir max_images min_size page_num [] st = (st, None)"
| "image_loop env doc page output_dir max_images min_size page_num ((img_index, img_info) # rest) st =
     (if total_extracted st \<ge> max_images then (st, None)
      else
        (case img_info of
           Inl e \<Rightarrow> (st, Some e)
         | Inr xr \<Rightarrow>
             image_loop env doc page output_dir max_images min_size page_num rest
               (case process_image env doc page output_dir min_size page_num img_index xr of
                  None \<Rightarrow> st
                | Some a \<Rightarrow> accept a st)))"

text \<open>
  \<open>for page_num in range(page_count)\<close>, with its \<open>break\<close>; \<open>doc[page_num]\<close> and
  \<open>page.get_images(full=True)\<close> are outside the inner \<open>try\<close>.
\<close>

fun images_page_loop ::
  "image_env \<Rightarrow> image_doc \<Rightarrow> pystr option \<Rightarrow> int \<Rightarrow> int \<Rightarrow> (exc + image_page) list \<Rightarrow> int \<Rightarrow>
     images_state \<Rightarrow> images_state \<times> exc option" where
  "images_page_loop env doc output_dir max_images min_size [] page_num st = (st, None)"
| "images_page_loop env doc output_dir max_images min_size (p # rest) page_num st =
     (if total_extracted st \<ge> max_images then (st, None)
      else
        (case p of
           Inl e \<Rightarrow> (st, Some e)
         | Inr page \<Rightarrow>
             (case get_images page of
                Inl e \<Rightarrow> (st, Some e)
              | Inr image_list \<Rightarrow>
                  (case image_loop env doc page output_dir max_images min_size page_num
                          (enumerate_from 0 image_list) st of
                     (st', Some e) \<Rightarrow> (st', Some e)
                   | (st', None) \<Rightarrow>
                       images_page_loop env doc output_dir max_images min_size rest
                         (page_num + 1) st'))))"

text \<open>The three \<open>except\<close> clauses of \<open>extract_images_from_pdf\<close>.\<close>

fun image_handlers :: "exc \<Rightarrow> result" where
  "image_handlers (FileDataError e) = failure (lit ''Invalid or corrupted PDF file: '' @ e) None"
| "image_handlers (EmptyFileError e) = failure (lit ''PDF file is empty: '' @ e) None"
| "image_handlers (OtherException e) = failure (lit ''Unable to extract images: '' @ e) None"

text \<open>
  The function returns its dictionary; the second component is the files it wrote, which
  stay written when an exception ends the run.
\<close>

definition extract_images_from_pdf ::
  "image_env \<Rightarrow> pystr \<Rightarrow> pystr option \<Rightarrow> int \<Rightarrow> int \<Rightarrow> result \<times> (pystr \<times> bytes) list" where
  "extract_images_from_pdf env pdf_path output_dir max_images min_size =
     (case open_doc env pdf_path of
        Inl e \<Rightarrow> (image_handlers e, [])
      | Inr doc \<Rightarrow>
          (case len_raises doc of
             Some e \<Rightarrow> (image_handlers e, [])
           | None \<Rightarrow>
               (let page_count = int (length (doc_pages doc))
                in case images_page_loop env doc output_dir max_images min_size
                          (doc_pages doc) 0
                          \<lparr>images_data = [], total_extracted = 0, written = []\<rparr> of
                     (st, Some e) \<Rightarrow> (image_handlers e, written st)
                   | (st, None) \<Rightarrow>
                       (case close_raises doc of
                          Some e \<Rightarrow> (image_handlers e, written st)
                        | None \<Rightarrow>
                            (\<lparr>success = True, result.text = None,
                              pageCount = Some page_count, pages = None,
                              images = Some (images_data st),
                              totalImages = Some (total_extracted st),
                              error = None, method = lit ''pymupdf''\<rparr>,
                             written st)))))"

definition images_usage :: result where
  "images_usage =
     failure (lit ''Usage: python3 extract-pdf-images.py <pdf_file_path> [output_directory]'') None"

text \<open>
  \<open>main\<close> of the image extractor, which calls the function with its defaults
  \<open>max_images=50\<close> and \<open>min_size=100\<close>. \<open>os.makedirs\<close> is outside every \<open>try\<close>.
\<close>

definition main_images :: "image_env \<Rightarrow> pystr list \<Rightarrow> outcome" where
  "main_images env argv =
     (if length argv < 2 then Exited [] [images_usage] 1
      else
        (let pdf_path = argv ! 1;
             output_dir = (if length argv > 2 then Some (argv ! 2) else None)
         in if (case output_dir of
                  None \<Rightarrow> False
                | Some d \<Rightarrow> d \<noteq> [] \<and> \<not> path_exists env d \<and> \<not> makedirs_ok env d)
            then Uncaught
            else
              (let res = fst (extract_images_from_pdf env pdf_path output_dir 50 100)
               in Exited [pdf_path] [res] (if success res then 0 else 1))))"

section \<open>The loops in closed form\<close>

text \<open>
  The records the text extractor's loop appends, built from the front, and the offset it
  ends with.
\<close>

fun records_from :: "int \<Rightarrow> int \<Rightarrow> pystr list \<Rightarrow> page_record list" where
  "records_from off n [] = []"
| "records_from off n (t # rest) =
     (if strip t \<noteq> [] then
        \<lparr>page_record.pageNumber = n + 1, page_record.text = t, startOffset = off,
         endOffset = off + int (length t)\<rparr> #
        records_from (off + int (length t) + 2) (n + 1) rest
      else records_from off (n + 1) rest)"

fun offset_after :: "int \<Rightarrow> pystr list \<Rightarrow> int" where
  "offset_after off [] = off"
| "offset_after off (t # rest) =
     (if strip t \<noteq> [] then offset_after (off + int (length t) + 2) rest
      else offset_after off rest)"

text \<open>A list of records whose offsets are laid out from \<open>off\<close> with gaps of two.\<close>

fun laid_out :: "int \<Rightarrow> page_record list \<Rightarrow> bool" where
  "laid_out off [] = True"
| "laid_out off (p # ps) =
     (startOffset p = off \<and> endOffset p = off + int (length (page_record.text p)) \<and>
      page_record.text p \<noteq> [] \<and>
      laid_out (off + int (length (page_record.text p)) + 2) ps)"

text \<open>
  What the two nested loops of the image extractor meet, in order: a call outside the
  inner \<open>try\<close> that raises, or a candidate image with its \<open>page_num\<close>, page,
  \<open>img_index\<close> and \<open>xref\<close>.
\<close>

type_synonym candidate = "int \<times> image_page \<times> int \<times> int"

datatype item = Raises exc | Candidate candidate

definition page_items :: "int \<Rightarrow> exc + image_page \<Rightarrow> item list" where
  "page_items page_num p =
     (case p of
        Inl e \<Rightarrow> [Raises e]
      | Inr page \<Rightarrow>
          (case get_images page of
             Inl e \<Rightarrow> [Raises e]
           | Inr image_list \<Rightarrow>
               map (\<lambda>(i, img_info).
                      case img_info of
                        Inl e \<Rightarrow> Raises e
                      | Inr xr \<Rightarrow> Candidate (page_num, page, i, xr))
                 (enumerate_from 0 image_list)))"

fun items_from :: "int \<Rightarrow> (exc + image_page) list \<Rightarrow> item list" where
  "items_from n [] = []"
| "items_from n (p # ps) = page_items n p @ items_from (n + 1) ps"

fun candidates_of :: "item list \<Rightarrow> candidate list" where
  "candidates_of [] = []"
| "candidates_of (Raises e # its) = candidates_of its"
| "candidates_of (Candidate c # its) = c # candidates_of its"

text \<open>The candidate images of a document, and the \<open>xref\<close> of a candidate.\<close>

definition candidates :: "image_doc \<Rightarrow> candidate list" where
  "candidates doc = candidates_of (items_from 0 (doc_pages doc))"

fun candidate_xref :: "candidate \<Rightarrow> int" where
  "candidate_xref (page_num, page, img_index, xr) = xr"

text \<open>What \<open>process_image\<close> makes of a candidate.\<close>

definition process_candidate ::
  "image_env \<Rightarrow> image_doc \<Rightarrow> pystr option \<Rightarrow> int \<Rightarrow> candidate \<Rightarrow>
     (image_info \<times> (pystr \<times> bytes) option) option" where
  "process_candidate env doc output_dir min_size c =
     (case c of (page_num, page, img_index, xr) \<Rightarrow>
        process_image env doc page output_dir min_size page_num img_index xr)"

text \<open>
  The qualifying images of a document: the candidates that \<open>process_image\<close> turns into a
  record, in order, whatever the limit.
\<close>

definition qualifying ::
  "image_env \<Rightarrow> image_doc \<Rightarrow> pystr option \<Rightarrow> int \<Rightarrow>
     (image_info \<times> (pystr \<times> bytes) option) list" where
  "qualifying env doc output_dir min_size =
     List.map_filter (process_candidate env doc output_dir min_size) (candidates doc)"

text \<open>The two loops as one loop over the items.\<close>

fun item_loop ::
  "(candidate \<Rightarrow> (image_info \<times> (pystr \<times> bytes) option) option) \<Rightarrow> int \<Rightarrow> item list \<Rightarrow>
     images_state \<Rightarrow> images_state \<times> exc option" where
  "item_loop f max_images [] st = (st, None)"
| "item_loop f max_images (it # rest) st =
     (if total_extracted st \<ge> max_images then (st, None)
      else
        (case it of
           Raises e \<Rightarrow> (st, Some e)
         | Candidate c \<Rightarrow>
             item_loop f max_images rest (case f c of None \<Rightarrow> st | Some a \<Rightarrow> accept a st)))"

text \<open>
  A document on which every call outside the inner \<open>try\<close> returns: \<open>len(doc)\<close>, every
  \<open>doc[page_num]\<close>, every \<open>page.get_images\<close>, every \<open>img_info[0]\<close> and \<open>doc.close()\<close>.
\<close>

fun returns :: "exc + 'a \<Rightarrow> bool" where
  "returns (Inl e) = False"
| "returns (Inr x) = True"

fun page_returns :: "exc + image_page \<Rightarrow> bool" where
  "page_returns (Inl e) = False"
| "page_returns (Inr page) =
     (case get_images page of Inl e \<Rightarrow> False | Inr image_list \<Rightarrow> list_all returns image_list)"

definition calls_return :: "image_doc \<Rightarrow> bool" where
  "calls_return doc \<longleftrightarrow>
     len_raises doc = None \<and> list_all page_returns (doc_pages doc) \<and> close_raises doc = None"

section \<open>Examples\<close>

text \<open>
  A three-page document whose middle page holds a single blank, and one whose only text
  is too short to count.
\<close>

definition sample_pages :: "pystr document" where
  "sample_pages =
     \<lparr>len_raises = None, doc_pages = [Inr (replicate 60 97), Inr [32], Inr (replicate 60 98)],
      close_raises = None\<rparr>"

definition short_pages :: "pystr document" where
  "short_pages = \<lparr>len_raises = None, doc_pages = [Inr [104, 105], Inr []], close_raises = None\<rparr>"

text \<open>
  An image of 100 by 100 and one of 99 by 99; \<open>doc.extract_image\<close> giving the first for
  the \<open>xref\<close>s 7 and 9 and the second for 8; a page that lists 7 and 8; a document with
  that page twice, as when one picture is placed on two pages; a document with 51 such
  pages; a page that lists 7 and 9; a document whose only image is the small one; one
  whose image has rectangles that cannot be read; one whose page cannot list its images.
\<close>

definition sample_image :: base_image where
  "sample_image =
     \<lparr>image_key = Some [1, 2, 3, 4], ext_key = Some (lit ''png''), width_key = Some 100,
      height_key = Some 100, colorspace_key = Some 3, bpc_key = Some 8\<rparr>"

definition tiny_image :: base_image where
  "tiny_image =
     \<lparr>image_key = Some [5], ext_key = Some (lit ''png''), width_key = Some 99,
      height_key = Some 99, colorspace_key = Some 3, bpc_key = Some 8\<rparr>"

definition sample_extract :: "int \<Rightarrow> extracted" where
  "sample_extract x =
     (if x = 7 \<or> x = 9 then ExtractDict sample_image
      else if x = 8 then ExtractDict tiny_image
      else ExtractRaises)"

definition sample_page :: image_page where
  "sample_page = \<lparr>get_images = Inr [Inr 7, Inr 8], get_image_rects = (\<lambda>x. Some [])\<rparr>"

definition pages_doc :: "(exc + image_page) list \<Rightarrow> image_doc" where
  "pages_doc ps =
     \<lparr>len_raises = None, doc_pages = ps, close_raises = None, extract_image = sample_extract\<rparr>"

definition sample_doc :: image_doc where
  "sample_doc = pages_doc [Inr sample_page, Inr sample_page]"

definition many_doc :: image_doc where
  "many_doc = pages_doc (replicate 51 (Inr sample_page))"

definition two_doc :: image_doc where
  "two_doc =
     pages_doc [Inr \<lparr>get_images = Inr [Inr 7, Inr 9], get_image_rects = (\<lambda>x. Some [])\<rparr>]"


definition rectless_doc :: image_doc where
  "rectless_doc = pages_doc [Inr \<lparr>get_images = Inr [Inr 7], get_image_rects = (\<lambda>x. None)\<rparr>]"


definition sample_env :: "image_doc \<Rightarrow> image_env" where
  "sample_env doc =
     \<lparr>open_doc = (\<lambda>p. Inr doc), writable = (\<lambda>p. True), path_exists = (\<lambda>p. False),
      makedirs_ok = (\<lambda>p. True)\<rparr>"

section \<open>Properties of the text extractor\<close>

lemma strip_Nil [simp]: "strip [] = []"
  by (simp add: strip_def)

lemma page_loop_closed:
  "page_loop (map Inr ts) n st =
     Inr \<lparr>text_parts = text_parts st @ filter (\<lambda>t. strip t \<noteq> []) ts,
          pages_data = pages_data st @ records_from (current_offset st) n ts,
          current_offset = offset_after (current_offset st) ts\<rparr>"
  by (induction ts arbitrary: n st) (simp_all add: Let_def)

lemma page_loop_returns:
  "page_loop ps n st = Inr st' \<Longrightarrow> \<exists>ts. ps = map Inr ts"
proof (induction ps arbitrary: n st)
  case Nil
  then show ?case by simp
next
  case (Cons p ps)
  show ?case
  proof (cases p)
    case (Inl e)
    with Cons.prems show ?thesis by simp
  next
    case (Inr t)
    with Cons.prems obtain st1 where "page_loop ps (n + 1) st1 = Inr st'"
      by auto
    from Cons.IH [OF this] obtain ts where "ps = map Inr ts" ..
    with Inr have "p # ps = map Inr (t # ts)" by simp
    then show ?thesis ..
  qed
qed

lemma text_handlers_fail: "\<not> success (text_handlers e)"
  by (cases e) (simp_all add: failure_def)

lemma records_from_text:
  "map page_record.text (records_from off n doc) = filter (\<lambda>t. strip t \<noteq> []) doc"
  by (induction doc arbitrary: off n) auto

lemma records_from_laid_out: "laid_out off (records_from off n doc)"
  by (induction doc arbitrary: off n) auto

lemma laid_out_each:
  "laid_out off ps \<Longrightarrow> i < length ps \<Longrightarrow>
     endOffset (ps ! i) = startOffset (ps ! i) + int (length (page_record.text (ps ! i))) \<and>
     startOffset (ps ! i) < endOffset (ps ! i) \<and> off \<le> startOffset (ps ! i)"
proof (induction ps arbitrary: off i)
  case Nil
  then show ?case by simp
next
  case (Cons p ps)
  show ?case
  proof (cases i)
    case 0
    with Cons.prems show ?thesis by simp
  next
    case (Suc k)
    with Cons.prems have "laid_out (off + int (length (page_record.text p)) + 2) ps"
      and "k < length ps"
      by simp_all
    from Cons.IH [OF this] Suc show ?thesis
      by (simp only: nth_Cons_Suc) linarith
  qed
qed

lemma laid_out_next:
  "laid_out off ps \<Longrightarrow> Suc i < length ps \<Longrightarrow>
     startOffset (ps ! Suc i) = endOffset (ps ! i) + 2"
proof (induction ps arbitrary: off i)
  case Nil
  then show ?case by simp
next
  case (Cons p ps)
  show ?case
  proof (cases i)
    case 0
    with Cons.prems show ?thesis by (cases ps) simp_all
  next
    case (Suc k)
    with Cons.prems have "laid_out (off + int (length (page_record.text p)) + 2) ps"
      and "Suc k < length ps"
      by simp_all
    from Cons.IH [OF this] Suc show ?thesis by simp
  qed
qed

lemma laid_out_apart:
  "laid_out off ps \<Longrightarrow> i < j \<Longrightarrow> j < length ps \<Longrightarrow>
     endOffset (ps ! i) + 2 \<le> startOffset (ps ! j)"
proof (induction ps arbitrary: off i j)
  case Nil
  then show ?case by simp
next
  case (Cons p ps)
  define off' where "off' = off + int (length (page_record.text p)) + 2"
  from Cons.prems obtain j' where j: "j = Suc j'" by (cases j) auto
  with Cons.prems have lo: "laid_out off' ps" and j': "j' < length ps"
    by (simp_all add: off'_def)
  show ?case
  proof (cases i)
    case 0
    from Cons.prems have "endOffset p + 2 = off'" by (simp add: off'_def)
    moreover from laid_out_each [OF lo j'] have "off' \<le> startOffset (ps ! j')" by blast
    ultimately show ?thesis using j 0 by simp
  next
    case (Suc k)
    with Cons.prems j have "k < j'" by simp
    from Cons.IH [OF lo this j'] Suc j show ?thesis by simp
  qed
qed

lemma laid_out_slice:
  "laid_out off ps \<Longrightarrow> i < length ps \<Longrightarrow>
     take (length (page_record.text (ps ! i)))
       (drop (nat (startOffset (ps ! i) - off)) (join [10, 10] (map page_record.text ps))) =
     page_record.text (ps ! i)"
proof (induction ps arbitrary: off i)
  case Nil
  then show ?case by simp
next
  case (Cons p ps)
  show ?case
  proof (cases ps)
    case Nil
    with Cons.prems show ?thesis by simp
  next
    case (Cons q qs)
    note ps = this
    show ?thesis
    proof (cases i)
      case 0
      with Cons.prems ps show ?thesis by simp
    next
      case (Suc k)
      define off' where "off' = off + int (length (page_record.text p)) + 2"
      from Cons.prems Suc have lo: "laid_out off' ps" and k: "k < length ps"
        by (simp_all add: off'_def)
      from laid_out_each [OF lo k] have ge: "off' \<le> startOffset (ps ! k)"
        by blast
      have "nat (startOffset (ps ! k) - off) =
              length (page_record.text p) + 2 + nat (startOffset (ps ! k) - off')"
        using ge by (simp add: off'_def)
      then have "drop (nat (startOffset (ps ! k) - off))
                   (join [10, 10] (map page_record.text (p # ps))) =
                 drop (nat (startOffset (ps ! k) - off')) (join [10, 10] (map page_record.text ps))"
        using ps by (simp add: drop_Cons')
      with Cons.IH [OF lo k] Suc show ?thesis by (simp only: nth_Cons_Suc)
    qed
  qed
qed

lemma laid_out_end_le:
  "laid_out off ps \<Longrightarrow> i < length ps \<Longrightarrow>
     endOffset (ps ! i) - off \<le> int (length (join [10, 10] (map page_record.text ps)))"
proof (induction ps arbitrary: off i)
  case Nil
  then show ?case by simp
next
  case (Cons p ps)
  show ?case
  proof (cases ps)
    case Nil
    with Cons.prems show ?thesis by simp
  next
    case (Cons q qs)
    note ps = this
    show ?thesis
    proof (cases i)
      case 0
      with Cons.prems ps show ?thesis by simp
    next
      case (Suc k)
      with Cons.prems have lo: "laid_out (off + int (length (page_record.text p)) + 2) ps"
        and k: "k < length ps"
        by simp_all
      from Cons.IH [OF lo k] Suc ps show ?thesis by simp
    qed
  qed
qed

lemma extract_text_success:
  assumes "success (extract_text_from_pdf fitz_open pdf_path)"
  obtains doc ts where "fitz_open pdf_path = Inr doc"
    and "doc_pages doc = map Inr ts"
    and "result.text (extract_text_from_pdf fitz_open pdf_path) =
           Some (join [10, 10] (filter (\<lambda>t. strip t \<noteq> []) ts))"
    and "pages (extract_text_from_pdf fitz_open pdf_path) = Some (records_from 0 0 ts)"
proof (cases "fitz_open pdf_path")
  case (Inl e)
  with assms text_handlers_fail [of e] have False
    by (simp add: extract_text_from_pdf_def)
  then show ?thesis ..
next
  case (Inr doc)
  note doc = this
  define init where "init = \<lparr>text_parts = [], pages_data = [], current_offset = 0\<rparr>"
  show ?thesis
  proof (cases "page_loop (doc_pages doc) 0 init")
    case (Inl e)
    with assms doc text_handlers_fail have False
      by (auto simp add: extract_text_from_pdf_def init_def Let_def split: option.splits)
    then show ?thesis ..
  next
    case (Inr st)
    from page_loop_returns [OF this] obtain ts where ts: "doc_pages doc = map Inr ts" ..
    with Inr have st: "st = \<lparr>text_parts = filter (\<lambda>t. strip t \<noteq> []) ts,
          pages_data = records_from 0 0 ts, current_offset = offset_after 0 ts\<rparr>"
      by (simp add: page_loop_closed init_def)
    from assms doc Inr text_handlers_fail
    have "result.text (extract_text_from_pdf fitz_open pdf_path) =
             Some (join [10, 10] (text_parts st)) \<and>
          pages (extract_text_from_pdf fitz_open pdf_path) = Some (pages_data st)"
      by (auto simp add: extract_text_from_pdf_def init_def Let_def failure_def
          split: option.splits if_splits)
    with st doc ts that show ?thesis by simp
  qed
qed

text \<open>
  Claim C1. When the text extractor succeeds on a document, the texts of the returned page
  records are the texts of the pages that are not blank, in order; each record has
  \<open>endOffset = startOffset + len(text)\<close>; the first record starts at 0; each later record
  starts 2 after the end of the one before it, however many blank pages the document has
  between the two; so the ranges are not empty, increase strictly and do not overlap.
\<close>

theorem page_offsets_chained:
  assumes "fitz_open pdf_path = Inr doc"
    and "success (extract_text_from_pdf fitz_open pdf_path)"
  shows "\<exists>ps ts. pages (extract_text_from_pdf fitz_open pdf_path) = Some ps \<and>
     doc_pages doc = map Inr ts \<and>
     map page_record.text ps = filter (\<lambda>t. strip t \<noteq> []) ts \<and>
     (\<forall>i<length ps.
        endOffset (ps ! i) = startOffset (ps ! i) + int (length (page_record.text (ps ! i)))) \<and>
     (ps \<noteq> [] \<longrightarrow> startOffset (ps ! 0) = 0) \<and>
     (\<forall>i. Suc i < length ps \<longrightarrow> startOffset (ps ! Suc i) = endOffset (ps ! i) + 2) \<and>
     (\<forall>i j. i < j \<and> j < length ps \<longrightarrow>
        startOffset (ps ! i) < endOffset (ps ! i) \<and> endOffset (ps ! i) < startOffset (ps ! j))"
proof -
  from assms(2) obtain doc' ts where "fitz_open pdf_path = Inr doc'"
    and "doc_pages doc' = map Inr ts"
    and ps: "pages (extract_text_from_pdf fitz_open pdf_path) = Some (records_from 0 0 ts)"
    by (rule extract_text_success)
  with assms(1) have ts: "doc_pages doc = map Inr ts"
    by simp
  define ps where "ps = records_from 0 0 ts"
  have lo: "laid_out 0 ps"
    unfolding ps_def by (rule records_from_laid_out)
  have texts: "map page_record.text ps = filter (\<lambda>t. strip t \<noteq> []) ts"
    unfolding ps_def by (rule records_from_text)
  have each: "\<forall>i<length ps.
      endOffset (ps ! i) = startOffset (ps ! i) + int (length (page_record.text (ps ! i)))"
    using laid_out_each [OF lo] by blast
  have first: "ps \<noteq> [] \<longrightarrow> startOffset (ps ! 0) = 0"
    using lo by (cases ps) simp_all
  have nxt: "\<forall>i. Suc i < length ps \<longrightarrow> startOffset (ps ! Suc i) = endOffset (ps ! i) + 2"
    using laid_out_next [OF lo] by blast
  have apart: "\<forall>i j. i < j \<and> j < length ps \<longrightarrow>
        startOffset (ps ! i) < endOffset (ps ! i) \<and> endOffset (ps ! i) < startOffset (ps ! j)"
  proof (intro allI impI)
    fix i j
    assume ij: "i < j \<and> j < length ps"
    then have "i < length ps" by simp
    from laid_out_each [OF lo this] have a: "startOffset (ps ! i) < endOffset (ps ! i)"
      by blast
    from ij laid_out_apart [OF lo, of i j] have "endOffset (ps ! i) + 2 \<le> startOffset (ps ! j)"
      by simp
    with a show "startOffset (ps ! i) < endOffset (ps ! i) \<and> endOffset (ps ! i) < startOffset (ps ! j)"
      by simp
  qed
  from ps ts texts each first nxt apart show ?thesis
    unfolding ps_def [symmetric] by blast
qed

theorem page_offsets_chained_witness:
  "success (extract_text_from_pdf (\<lambda>p. Inr sample_pages) []) \<and>
   (\<exists>ps. pages (extract_text_from_pdf (\<lambda>p. Inr sample_pages) []) = Some ps \<and>
     map page_record.text ps = [replicate 60 97, replicate 60 98] \<and>
     startOffset (ps ! 0) = 0 \<and>
     endOffset (ps ! 0) = startOffset (ps ! 0) + 60 \<and>
     startOffset (ps ! 1) = endOffset (ps ! 0) + 2 \<and>
     endOffset (ps ! 0) < startOffset (ps ! 1))"
proof -
  have o: "(\<lambda>p. Inr sample_pages) [] = (Inr sample_pages :: exc + pystr document)"
    by simp
  have s: "success (extract_text_from_pdf (\<lambda>p. Inr sample_pages) [])"
    by (simp add: extract_text_from_pdf_def sample_pages_def strip_def isspace_def Let_def)
  have d: "doc_pages sample_pages = map Inr [replicate 60 97, [32], replicate 60 98]"
    by (simp add: sample_pages_def)
  have f: "filter (\<lambda>t. strip t \<noteq> []) [replicate 60 97, [32], replicate 60 98] =
      [replicate 60 97, replicate 60 98]"
    by (simp add: strip_def isspace_def)
  from page_offsets_chained [of "\<lambda>p. Inr sample_pages" "[]" sample_pages, OF o s]
  obtain ps ts where p: "pages (extract_text_from_pdf (\<lambda>p. Inr sample_pages) []) = Some ps"
    and ts: "doc_pages sample_pages = map Inr ts"
    and t: "map page_record.text ps = filter (\<lambda>t. strip t \<noteq> []) ts"
    and e: "\<forall>i<length ps.
        endOffset (ps ! i) = startOffset (ps ! i) + int (length (page_record.text (ps ! i)))"
    and z: "ps \<noteq> [] \<longrightarrow> startOffset (ps ! 0) = 0"
    and n: "\<forall>i. Suc i < length ps \<longrightarrow> startOffset (ps ! Suc i) = endOffset (ps ! i) + 2"
    and a: "\<forall>i j. i < j \<and> j < length ps \<longrightarrow>
        startOffset (ps ! i) < endOffset (ps ! i) \<and> endOffset (ps ! i) < startOffset (ps ! j)"
    by blast
  from ts d have "map Inr ts = (map Inr [replicate 60 97, [32], replicate 60 98] :: (exc + pystr) list)"
    by simp
  then have "ts = [replicate 60 97, [32], replicate 60 98]"
    by (auto simp add: map_eq_Cons_conv)
  with t f have t': "map page_record.text ps = [replicate 60 97, replicate 60 98]"
    by simp
  then have len: "length ps = 2"
    by (metis length_map length_Cons list.size(3) One_nat_def Suc_1)
  from t' len have t0: "page_record.text (ps ! 0) = replicate 60 97"
    by (metis nth_map nth_Cons_0 zero_less_numeral)
  from z len have "startOffset (ps ! 0) = 0" by auto
  moreover from e len t0 have "endOffset (ps ! 0) = startOffset (ps ! 0) + 60" by simp
  moreover from n len have "startOffset (ps ! 1) = endOffset (ps ! 0) + 2" by simp
  moreover from a [rule_format, of 0 1] len have "endOffset (ps ! 0) < startOffset (ps ! 1)"
    by simp
  ultimately show ?thesis using s p t' by simp
qed

text \<open>
  Claim C2. In a successful result, joining the texts of the page records with the two
  characters \<open>"\n\n"\<close> gives the returned \<open>text\<close>, and
  \<open>text[startOffset:endOffset]\<close> of every record is that record's text.
\<close>

theorem full_text_is_joined_pages:
  assumes "success (extract_text_from_pdf fitz_open pdf_path)"
  shows "\<exists>full ps.
     result.text (extract_text_from_pdf fitz_open pdf_path) = Some full \<and>
     pages (extract_text_from_pdf fitz_open pdf_path) = Some ps \<and>
     join [10, 10] (map page_record.text ps) = full \<and>
     (\<forall>i<length ps.
        py_slice full (startOffset (ps ! i)) (endOffset (ps ! i)) = page_record.text (ps ! i))"
proof -
  from assms obtain ts where
    t: "result.text (extract_text_from_pdf fitz_open pdf_path) =
           Some (join [10, 10] (filter (\<lambda>t. strip t \<noteq> []) ts))"
    and p: "pages (extract_text_from_pdf fitz_open pdf_path) = Some (records_from 0 0 ts)"
    by (rule extract_text_success)
  define ps where "ps = records_from 0 0 ts"
  define full where "full = join [10, 10] (map page_record.text ps)"
  have lo: "laid_out 0 ps"
    unfolding ps_def by (rule records_from_laid_out)
  have full: "join [10, 10] (filter (\<lambda>t. strip t \<noteq> []) ts) = full"
    unfolding full_def ps_def by (simp add: records_from_text)
  have slices: "\<forall>i<length ps.
        py_slice full (startOffset (ps ! i)) (endOffset (ps ! i)) = page_record.text (ps ! i)"
  proof (intro allI impI)
    fix i
    assume i: "i < length ps"
    from laid_out_each [OF lo i]
    have e: "endOffset (ps ! i) = startOffset (ps ! i) + int (length (page_record.text (ps ! i)))"
      and s: "0 \<le> startOffset (ps ! i)"
      by blast+
    from laid_out_end_le [OF lo i] have le: "endOffset (ps ! i) \<le> int (length full)"
      by (simp add: full_def)
    from laid_out_slice [OF lo i]
    have "take (length (page_record.text (ps ! i))) (drop (nat (startOffset (ps ! i))) full) =
            page_record.text (ps ! i)"
      by (simp add: full_def)
    moreover have "py_slice full (startOffset (ps ! i)) (endOffset (ps ! i)) =
        take (length (page_record.text (ps ! i))) (drop (nat (startOffset (ps ! i))) full)"
      using e s le by (simp add: py_slice_def Let_def min_def)
    ultimately show "py_slice full (startOffset (ps ! i)) (endOffset (ps ! i)) =
        page_record.text (ps ! i)"
      by simp
  qed
  from t p full slices show ?thesis
    by (simp add: ps_def [symmetric] full_def [symmetric])
qed

theorem full_text_is_joined_pages_witness:
  "success (extract_text_from_pdf (\<lambda>p. Inr sample_pages) []) \<and>
   (\<exists>full ps.
     result.text (extract_text_from_pdf (\<lambda>p. Inr sample_pages) []) = Some full \<and>
     pages (extract_text_from_pdf (\<lambda>p. Inr sample_pages) []) = Some ps \<and>
     join [10, 10] (map page_record.text ps) = full \<and>
     length ps = 2 \<and>
     py_slice full (startOffset (ps ! 1)) (endOffset (ps ! 1)) = page_record.text (ps ! 1))"
proof -
  have s: "success (extract_text_from_pdf (\<lambda>p. Inr sample_pages) [])"
    by (simp add: extract_text_from_pdf_def sample_pages_def strip_def isspace_def Let_def)
  have l: "pages (extract_text_from_pdf (\<lambda>p. Inr sample_pages) []) = Some ps \<Longrightarrow> length ps = 2"
    for ps
    by (auto simp add: extract_text_from_pdf_def sample_pages_def strip_def
        isspace_def Let_def failure_def split: if_splits)
  from full_text_is_joined_pages [OF s] obtain full ps where
    "result.text (extract_text_from_pdf (\<lambda>p. Inr sample_pages) []) = Some full"
    and p: "pages (extract_text_from_pdf (\<lambda>p. Inr sample_pages) []) = Some ps"
    and "join [10, 10] (map page_record.text ps) = full"
    and a: "\<forall>i<length ps.
        py_slice full (startOffset (ps ! i)) (endOffset (ps ! i)) = page_record.text (ps ! i)"
    by blast
  moreover from l [OF p] have len: "length ps = 2" .
  moreover from a len
  have "py_slice full (startOffset (ps ! 1)) (endOffset (ps ! 1)) = page_record.text (ps ! 1)"
    by simp
  ultimately show ?thesis using s by simp
qed

text \<open>
  Claim C4. When the document opens, the loop builds the full text, the document closes,
  and that full text is empty, or shorter than 100 characters once stripped, the function
  returns the failure whose message points to a scanned or image-only document and to
  OCR, with \<open>pageCount\<close> the number of all pages, and \<open>main\<close> prints that result and
  exits with status 1.
\<close>

theorem short_text_is_failure:
  assumes "fitz_open pdf_path = Inr doc"
    and "len_raises doc = None"
    and "page_loop (doc_pages doc) 0
           \<lparr>text_parts = [], pages_data = [], current_offset = 0\<rparr> = Inr st"
    and "close_raises doc = None"
    and "full_text = join [10, 10] (text_parts st)"
    and "full_text = [] \<or> int (length (strip full_text)) < 100"
    and "2 \<le> length argv"
    and "argv ! 1 = pdf_path"
  shows "extract_text_from_pdf fitz_open pdf_path =
           \<lparr>success = False, result.text = None,
            pageCount = Some (int (length (doc_pages doc))),
            pages = None, images = None, totalImages = None,
            error = Some no_text_message, method = lit ''pymupdf''\<rparr> \<and>
         main_text fitz_open argv =
           Exited [pdf_path] [extract_text_from_pdf fitz_open pdf_path] 1"
proof -
  from assms(1-6) have r: "extract_text_from_pdf fitz_open pdf_path =
           \<lparr>success = False, result.text = None,
            pageCount = Some (int (length (doc_pages doc))),
            pages = None, images = None, totalImages = None,
            error = Some no_text_message, method = lit ''pymupdf''\<rparr>"
    by (simp add: extract_text_from_pdf_def failure_def Let_def)
  then have "\<not> success (extract_text_from_pdf fitz_open pdf_path)"
    by simp
  with assms(7,8) have "main_text fitz_open argv =
           Exited [pdf_path] [extract_text_from_pdf fitz_open pdf_path] 1"
    by (simp add: main_text_def Let_def)
  with r show ?thesis by blast
qed

theorem short_text_is_failure_witness:
  "extract_text_from_pdf (\<lambda>p. Inr short_pages) [102] =
           \<lparr>success = False, result.text = None, pageCount = Some 2,
            pages = None, images = None, totalImages = None,
            error = Some no_text_message, method = lit ''pymupdf''\<rparr> \<and>
   main_text (\<lambda>p. Inr short_pages) [[120], [102]] =
           Exited [[102]] [extract_text_from_pdf (\<lambda>p. Inr short_pages) [102]] 1"
proof -
  have o: "(\<lambda>p. Inr short_pages) [102] = (Inr short_pages :: exc + pystr document)"
    by simp
  have n: "len_raises short_pages = None" and c: "close_raises short_pages = None"
    by (simp_all add: short_pages_def)
  have f: "page_loop (doc_pages short_pages) 0
      \<lparr>text_parts = [], pages_data = [], current_offset = 0\<rparr> =
      Inr \<lparr>text_parts = [[104, 105]],
           pages_data = [\<lparr>page_record.pageNumber = 1, page_record.text = [104, 105],
                          startOffset = 0, endOffset = 2\<rparr>],
           current_offset = 4\<rparr>"
    by (simp add: short_pages_def strip_def isspace_def)
  have j: "[104, 105] = join [10, 10] (text_parts \<lparr>text_parts = [[104, 105]],
           pages_data = [\<lparr>page_record.pageNumber = 1, page_record.text = [104, 105],
                          startOffset = 0, endOffset = 2\<rparr>],
           current_offset = 4\<rparr>)"
    by simp
  have s: "[104, 105] = [] \<or> int (length (strip [104, 105])) < 100"
    by (simp add: strip_def isspace_def)
  have l: "2 \<le> length [[120], [102::nat]]" by simp
  have a: "[[120], [102::nat]] ! 1 = [102]" by simp
  from short_text_is_failure [of "\<lambda>p. Inr short_pages" "[102]" short_pages _ "[104, 105]"
      "[[120], [102]]", OF o n f c j s l a]
  show ?thesis by (simp add: short_pages_def)
qed

section \<open>Base64 decodes what it encoded\<close>

lemma octet_bound: "unat (a :: 8 word) < 256"
  using unsigned_less [of a, where ?'a = nat] by simp

lemma octet_back: "(of_nat (unat (a :: 8 word)) :: 8 word) = a"
  by simp

lemma sextets:
  fixes x y z :: nat
  assumes "x < 256" "y < 256" "z < 256"
  shows "x div 4 < 64" "(x mod 4) * 16 + y div 16 < 64" "(y mod 16) * 4 + z div 64 < 64"
    "z mod 64 < 64" "(x mod 4) * 16 < 64" "(y mod 16) * 4 < 64"
  using assms by auto

lemma hi_lo:
  fixes a b :: nat
  assumes "b < k"
  shows "(a * k + b) div k = a" "(a * k + b) mod k = b"
  using assms by simp_all

lemma octets_back:
  fixes x y z :: nat
  assumes "y < 256" "z < 256"
  shows "x div 4 * 4 + ((x mod 4) * 16 + y div 16) div 16 = x"
    "(((x mod 4) * 16 + y div 16) mod 16) * 16 + ((y mod 16) * 4 + z div 64) div 4 = y"
    "(((y mod 16) * 4 + z div 64) mod 4) * 64 + z mod 64 = z"
    "x div 4 * 4 + ((x mod 4) * 16) div 16 = x"
    "(((x mod 4) * 16 + y div 16) mod 16) * 16 + ((y mod 16) * 4) div 4 = y"
proof -
  from assms have y16: "y div 16 < 16" and z64: "z div 64 < 4" by auto
  show "x div 4 * 4 + ((x mod 4) * 16 + y div 16) div 16 = x"
    using hi_lo(1) [OF y16, of "x mod 4"] by simp
  show "(((x mod 4) * 16 + y div 16) mod 16) * 16 + ((y mod 16) * 4 + z div 64) div 4 = y"
    using hi_lo(2) [OF y16, of "x mod 4"] hi_lo(1) [OF z64, of "y mod 16"] by simp
  show "(((y mod 16) * 4 + z div 64) mod 4) * 64 + z mod 64 = z"
    using hi_lo(2) [OF z64, of "y mod 16"] by simp
  show "x div 4 * 4 + ((x mod 4) * 16) div 16 = x" by simp
  show "(((x mod 4) * 16 + y div 16) mod 16) * 16 + ((y mod 16) * 4) div 4 = y"
    using hi_lo(2) [OF y16, of "x mod 4"] by simp
qed


lemma b64_value_char: "v < 64 \<Longrightarrow> b64_value (b64_char v) = Some v"
  by (auto simp add: b64_value_def b64_char_def)

lemma b64_char_not_pad: "v < 64 \<Longrightarrow> b64_char v \<noteq> 61"
  by (auto simp add: b64_char_def)

lemma b64_roundtrip: "b64decode (b64encode bs) = Some bs"
proof (induction bs rule: b64encode.induct)
  case 1
  show ?case by simp
next
  case (2 a)
  note b = octet_bound [of a]
  show ?case
    using sextets [OF b b b] octets_back [OF b b]
    by (simp add: b64_value_char b64_char_not_pad Let_def)
next
  case (3 a b)
  note ba = octet_bound [of a] and bb = octet_bound [of b]
  show ?case
    using sextets [OF ba bb bb] octets_back [OF bb bb]
    by (simp add: b64_value_char b64_char_not_pad Let_def)
next
  case (4 a b c rest)
  note ba = octet_bound [of a] and bb = octet_bound [of b] and bc = octet_bound [of c]
  show ?case
    using sextets [OF ba bb bc] octets_back [OF bb bc] 4
    by (simp add: b64_value_char b64_char_not_pad Let_def)
qed

section \<open>Properties of the image extractor\<close>

lemma fold_accept_fields:
  "fold accept as st =
     \<lparr>images_data = images_data st @ map fst as,
      total_extracted = total_extracted st + int (length as),
      written = written st @ concat (map (\<lambda>a. case snd a of None \<Rightarrow> [] | Some f \<Rightarrow> [f]) as)\<rparr>"
  by (induction as arbitrary: st) (simp_all add: accept_def)

lemma fold_accept_total:
  "total_extracted (fold accept as st) = total_extracted st + int (length as)"
  by (simp add: fold_accept_fields)

lemma take_nat_Cons:
  "t < (m::int) \<Longrightarrow> take (nat (m - t)) (a # xs) = a # take (nat (m - (t + 1))) xs"
proof -
  assume "t < m"
  then have "nat (m - t) = Suc (nat (m - (t + 1)))" by simp
  then show ?thesis by simp
qed

lemma map_filter_map: "List.map_filter f (map g xs) = List.map_filter (f \<circ> g) xs"
  by (induction xs) (simp_all split: option.splits)

lemma map_filter_append:
  "List.map_filter f (xs @ ys) = List.map_filter f xs @ List.map_filter f ys"
  by (simp add: List.map_filter_def)

lemma set_map_filter: "set (List.map_filter f xs) = {y. \<exists>x\<in>set xs. f x = Some y}"
  by (induction xs) (auto split: option.splits)

lemma process_image_Some:
  assumes "process_image env doc page od mn n i xr = Some a"
  shows "\<exists>bi data ext rects.
    extract_image doc xr = ExtractDict bi \<and> image_key bi = Some data \<and>
    ext_key bi = Some ext \<and> get_image_rects page xr = Some rects \<and>
    mn \<le> (case width_key bi of None \<Rightarrow> 0 | Some v \<Rightarrow> v) \<and>
    mn \<le> (case height_key bi of None \<Rightarrow> 0 | Some v \<Rightarrow> v) \<and>
    image_info.pageNumber (fst a) = n + 1 \<and> imageIndex (fst a) = i \<and> xref (fst a) = xr \<and>
    extension (fst a) = ext \<and> sizeBytes (fst a) = int (length data) \<and>
    filename (fst a) = image_filename n i ext \<and>
    (if truthy od
     then filepath (fst a) = Some (path_join (dir_of od) (image_filename n i ext)) \<and>
          base64 (fst a) = None \<and> mimeType (fst a) = None \<and>
          snd a = Some (path_join (dir_of od) (image_filename n i ext), data)
     else filepath (fst a) = None \<and> base64 (fst a) = Some (b64encode data) \<and>
          mimeType (fst a) = Some (lit ''image/'' @ ext) \<and> snd a = None)"
proof (cases "extract_image doc xr")
  case ExtractRaises
  with assms show ?thesis by (simp add: process_image_def)
next
  case ExtractEmpty
  with assms show ?thesis by (simp add: process_image_def)
next
  case (ExtractDict bi)
  note bi = this
  show ?thesis
  proof (cases "image_key bi")
    case None
    with assms bi show ?thesis by (simp add: process_image_def)
  next
    case (Some data)
    note data = this
    show ?thesis
    proof (cases "ext_key bi")
      case None
      with assms bi data show ?thesis by (simp add: process_image_def)
    next
      case (Some ext)
      note ext = this
      show ?thesis
      proof (cases "get_image_rects page xr")
        case None
        with assms bi data ext show ?thesis
          by (simp add: process_image_def Let_def split: if_splits)
      next
        case (Some rects)
        with assms bi data ext show ?thesis
          by (auto simp add: process_image_def Let_def split: if_splits)
      qed
    qed
  qed
qed


lemma image_handlers_fail:
  "\<not> success (image_handlers e)" "images (image_handlers e) = None"
  by (cases e; simp add: failure_def)+

lemma item_loop_full:
  "max_images \<le> total_extracted st \<Longrightarrow> item_loop f max_images its st = (st, None)"
  by (cases its) simp_all

lemma item_loop_append:
  "item_loop f mx (xs @ ys) st =
     (case item_loop f mx xs st of
        (st', Some e) \<Rightarrow> (st', Some e)
      | (st', None) \<Rightarrow> item_loop f mx ys st')"
proof (induction xs arbitrary: st)
  case Nil
  show ?case by simp
next
  case (Cons x xs)
  show ?case
  proof (cases "mx \<le> total_extracted st")
    case True
    then show ?thesis by (simp add: item_loop_full)
  next
    case False
    then show ?thesis
      by (cases x) (simp_all add: Cons.IH)
  qed
qed

lemma image_loop_items:
  "image_loop env doc page od mx mn n entries st =
     item_loop (process_candidate env doc od mn) mx
       (map (\<lambda>(i, img_info).
               case img_info of Inl e \<Rightarrow> Raises e | Inr xr \<Rightarrow> Candidate (n, page, i, xr))
          entries) st"
proof (induction entries arbitrary: st)
  case Nil
  show ?case by simp
next
  case (Cons c entries)
  obtain i img_info where c: "c = (i, img_info)" by (cases c)
  show ?case
    by (cases img_info) (simp_all add: c Cons.IH process_candidate_def)
qed

lemma images_page_loop_items:
  "images_page_loop env doc od mx mn ps n st =
     item_loop (process_candidate env doc od mn) mx (items_from n ps) st"
proof (induction ps arbitrary: n st)
  case Nil
  show ?case by simp
next
  case (Cons p ps)
  show ?case
  proof (cases "mx \<le> total_extracted st")
    case True
    then show ?thesis by (simp add: item_loop_full)
  next
    case False
    note open_loop = this
    show ?thesis
    proof (cases p)
      case (Inl e)
      with open_loop show ?thesis
        by (simp add: item_loop_append page_items_def)
    next
      case (Inr page)
      note page = this
      show ?thesis
      proof (cases "get_images page")
        case (Inl e)
        with open_loop page show ?thesis
          by (simp add: item_loop_append page_items_def)
      next
        case (Inr image_list)
        with open_loop page show ?thesis
          by (simp add: item_loop_append page_items_def image_loop_items Cons.IH
              split: prod.splits option.splits)
      qed
    qed
  qed
qed

lemma item_loop_closed:
  "item_loop f mx its st = (st', None) \<Longrightarrow>
     st' = fold accept
             (take (nat (mx - total_extracted st)) (List.map_filter f (candidates_of its))) st"
proof (induction its arbitrary: st)
  case Nil
  then show ?case by simp
next
  case (Cons it its)
  show ?case
  proof (cases "mx \<le> total_extracted st")
    case True
    with Cons.prems show ?thesis by simp
  next
    case False
    then have lt: "total_extracted st < mx" by simp
    show ?thesis
    proof (cases it)
      case (Raises e)
      with False Cons.prems show ?thesis by simp
    next
      case (Candidate c)
      show ?thesis
      proof (cases "f c")
        case None
        with False Candidate Cons.prems have "item_loop f mx its st = (st', None)" by simp
        from Cons.IH [OF this] None Candidate show ?thesis by simp
      next
        case (Some a)
        with False Candidate Cons.prems have "item_loop f mx its (accept a st) = (st', None)"
          by simp
        from Cons.IH [OF this] Some Candidate show ?thesis
          by (simp add: take_nat_Cons [OF lt] accept_def)
      qed
    qed
  qed
qed

lemma item_loop_no_raise:
  "\<forall>e. Raises e \<notin> set its \<Longrightarrow> snd (item_loop f mx its st) = None"
proof (induction its arbitrary: st)
  case Nil
  show ?case by simp
next
  case (Cons it its)
  then show ?case
    by (cases it) auto
qed

lemma page_items_no_raise:
  "page_returns p \<Longrightarrow> Raises e \<notin> set (page_items n p)"
proof (cases p)
  case (Inl x)
  assume "page_returns p"
  with Inl show ?thesis by simp
next
  case (Inr page)
  assume r: "page_returns p"
  show ?thesis
  proof (cases "get_images page")
    case (Inl x)
    with Inr r show ?thesis by simp
  next
    case (Inr image_list)
    have "Raises e \<notin> set (map (\<lambda>(i, img_info).
               case img_info of Inl e \<Rightarrow> Raises e | Inr xr \<Rightarrow> Candidate (n, page, i, xr))
          (enumerate_from k xs))" if "list_all returns xs" for k and xs :: "(exc + int) list"
      using that
    proof (induction xs arbitrary: k)
      case Nil
      show ?case by simp
    next
      case (Cons x xs)
      then show ?case by (cases x) auto
    qed
    with Inr \<open>p = Inr page\<close> r show ?thesis
      by (simp add: page_items_def)
  qed
qed

lemma items_from_no_raise:
  "list_all page_returns ps \<Longrightarrow> Raises e \<notin> set (items_from n ps)"
  by (induction ps arbitrary: n) (simp_all add: page_items_no_raise)

text \<open>A successful result of the image extractor, in closed form.\<close>

lemma extract_images_success:
  assumes "success (fst (extract_images_from_pdf env pdf_path od mx mn))"
  obtains doc where "open_doc env pdf_path = Inr doc"
    and "extract_images_from_pdf env pdf_path od mx mn =
      (\<lparr>success = True, result.text = None,
        pageCount = Some (int (length (doc_pages doc))), pages = None,
        images = Some (map fst (take (nat mx) (qualifying env doc od mn))),
        totalImages = Some (int (length (take (nat mx) (qualifying env doc od mn)))),
        error = None, method = lit ''pymupdf''\<rparr>,
       concat (map (\<lambda>a. case snd a of None \<Rightarrow> [] | Some f \<Rightarrow> [f])
         (take (nat mx) (qualifying env doc od mn))))"
proof (cases "open_doc env pdf_path")
  case (Inl e)
  with assms image_handlers_fail(1) [of e] have False
    by (simp add: extract_images_from_pdf_def)
  then show ?thesis ..
next
  case (Inr doc)
  note doc = this
  define init where "init = \<lparr>images_data = [], total_extracted = 0, written = []\<rparr>"
  obtain st r where loop: "images_page_loop env doc od mx mn (doc_pages doc) 0 init = (st, r)"
    by (cases "images_page_loop env doc od mx mn (doc_pages doc) 0 init")
  from assms doc loop image_handlers_fail(1) have ok:
    "len_raises doc = None" "r = None" "close_raises doc = None"
    by (auto simp add: extract_images_from_pdf_def init_def Let_def split: option.splits)
  from loop ok(2) have "item_loop (process_candidate env doc od mn) mx
      (items_from 0 (doc_pages doc)) init = (st, None)"
    by (simp add: images_page_loop_items)
  from item_loop_closed [OF this]
  have st: "st = fold accept (take (nat mx) (qualifying env doc od mn)) init"
    by (simp add: qualifying_def candidates_def init_def)
  from doc loop ok have "extract_images_from_pdf env pdf_path od mx mn =
      (\<lparr>success = True, result.text = None,
        pageCount = Some (int (length (doc_pages doc))), pages = None,
        images = Some (images_data st), totalImages = Some (total_extracted st),
        error = None, method = lit ''pymupdf''\<rparr>, written st)"
    by (simp add: extract_images_from_pdf_def init_def Let_def)
  with st have "extract_images_from_pdf env pdf_path od mx mn =
      (\<lparr>success = True, result.text = None,
        pageCount = Some (int (length (doc_pages doc))), pages = None,
        images = Some (map fst (take (nat mx) (qualifying env doc od mn))),
        totalImages = Some (int (length (take (nat mx) (qualifying env doc od mn)))),
        error = None, method = lit ''pymupdf''\<rparr>,
       concat (map (\<lambda>a. case snd a of None \<Rightarrow> [] | Some f \<Rightarrow> [f])
         (take (nat mx) (qualifying env doc od mn))))"
    by (simp add: fold_accept_fields init_def)
  with doc that show ?thesis by blast
qed

lemma extract_images_calls_return:
  assumes "open_doc env pdf_path = Inr doc" and "calls_return doc"
  shows "success (fst (extract_images_from_pdf env pdf_path od mx mn))"
proof -
  define init where "init = \<lparr>images_data = [], total_extracted = 0, written = []\<rparr>"
  from assms(2) have "\<forall>e. Raises e \<notin> set (items_from 0 (doc_pages doc))"
    by (simp add: calls_return_def items_from_no_raise)
  from item_loop_no_raise [OF this]
  have "snd (images_page_loop env doc od mx mn (doc_pages doc) 0 init) = None"
    by (simp add: images_page_loop_items)
  then obtain st where "images_page_loop env doc od mx mn (doc_pages doc) 0 init = (st, None)"
    by (cases "images_page_loop env doc od mx mn (doc_pages doc) 0 init") simp
  with assms show ?thesis
    by (simp add: extract_images_from_pdf_def calls_return_def init_def Let_def)
qed

lemma images_some_success:
  assumes "images (fst (extract_images_from_pdf env pdf_path od mx mn)) = Some imgs"
  shows "success (fst (extract_images_from_pdf env pdf_path od mx mn))"
  using assms image_handlers_fail(2)
  by (auto simp add: extract_images_from_pdf_def Let_def
      split: sum.splits option.splits prod.splits)

lemma process_image_dims:
  assumes "process_image env doc page od mn n i xr = Some a"
  shows "\<exists>bi. extract_image doc xr = ExtractDict bi \<and>
    width (fst a) = (case width_key bi of None \<Rightarrow> 0 | Some v \<Rightarrow> v) \<and>
    height (fst a) = (case height_key bi of None \<Rightarrow> 0 | Some v \<Rightarrow> v) \<and>
    mn \<le> width (fst a) \<and> mn \<le> height (fst a)"
proof (cases "extract_image doc xr")
  case ExtractRaises
  with assms show ?thesis by (simp add: process_image_def)
next
  case ExtractEmpty
  with assms show ?thesis by (simp add: process_image_def)
next
  case (ExtractDict bi)
  with assms show ?thesis
    by (auto simp add: process_image_def Let_def split: option.splits if_splits)
qed

lemma process_image_clean:
  assumes "extract_image doc xr = ExtractDict bi"
    and "image_key bi = Some data"
    and "ext_key bi = Some ext"
    and "get_image_rects page xr = Some rects"
    and "truthy od \<longrightarrow> writable env (path_join (dir_of od) (image_filename n i ext))"
  shows "process_image env doc page od mn n i xr \<noteq> None \<longleftrightarrow>
         mn \<le> (case width_key bi of None \<Rightarrow> 0 | Some v \<Rightarrow> v) \<and>
         mn \<le> (case height_key bi of None \<Rightarrow> 0 | Some v \<Rightarrow> v)"
  using assms by (auto simp add: process_image_def Let_def)

lemma qualifying_member:
  assumes "a \<in> set (take k (qualifying env doc od mn))"
  shows "\<exists>n page i xr. (n, page, i, xr) \<in> set (candidates doc) \<and>
           process_image env doc page od mn n i xr = Some a"
proof -
  from assms have "a \<in> set (qualifying env doc od mn)"
    by (rule in_set_takeD)
  then obtain c where m: "c \<in> set (candidates doc)"
    and p: "process_candidate env doc od mn c = Some a"
    by (auto simp add: qualifying_def set_map_filter)
  obtain n page i xr where c: "c = (n, page, i, xr)"
    by (cases c)
  from p c have "process_image env doc page od mn n i xr = Some a"
    by (simp add: process_candidate_def)
  with m c show ?thesis by blast
qed

text \<open>
  Claim C10. In every successful result of the image extractor, \<open>totalImages\<close> is the
  length of \<open>images\<close>: the loop adds one record and one to the counter together.
\<close>

theorem total_images_is_length:
  assumes "success (fst (extract_images_from_pdf env pdf_path output_dir max_images min_size))"
  shows "\<exists>imgs.
     images (fst (extract_images_from_pdf env pdf_path output_dir max_images min_size)) = Some imgs \<and>
     totalImages (fst (extract_images_from_pdf env pdf_path output_dir max_images min_size)) =
       Some (int (length imgs))"
proof -
  from assms obtain doc where
    "extract_images_from_pdf env pdf_path output_dir max_images min_size =
      (\<lparr>success = True, result.text = None,
        pageCount = Some (int (length (doc_pages doc))), pages = None,
        images = Some (map fst (take (nat max_images) (qualifying env doc output_dir min_size))),
        totalImages =
          Some (int (length (take (nat max_images) (qualifying env doc output_dir min_size)))),
        error = None, method = lit ''pymupdf''\<rparr>,
       concat (map (\<lambda>a. case snd a of None \<Rightarrow> [] | Some f \<Rightarrow> [f])
         (take (nat max_images) (qualifying env doc output_dir min_size))))"
    by (rule extract_images_success)
  then show ?thesis by simp
qed

lemma sample_doc_success:
  "success (fst (extract_images_from_pdf (sample_env sample_doc) [] od mx mn))"
  by (rule extract_images_calls_return [of _ _ sample_doc])
    (simp_all add: sample_env_def sample_doc_def pages_doc_def calls_return_def sample_page_def)

theorem total_images_is_length_witness:
  "success (fst (extract_images_from_pdf (sample_env sample_doc) [] None 50 100)) \<and>
   (\<exists>imgs.
     images (fst (extract_images_from_pdf (sample_env sample_doc) [] None 50 100)) = Some imgs \<and>
     totalImages (fst (extract_images_from_pdf (sample_env sample_doc) [] None 50 100)) =
       Some (int (length imgs)))"
proof -
  have s: "success (fst (extract_images_from_pdf (sample_env sample_doc) [] None 50 100))"
    by (rule sample_doc_success)
  from total_images_is_length [OF s] s show ?thesis by blast
qed

text \<open>
  Claim C8. Run with no argument after the script's name, either extractor prints one
  object with \<open>success\<close> false, a message that starts with \<open>Usage:\<close> and the
  \<open>method\<close> tag, and exits with status 1, without having called \<open>fitz.open\<close>.
\<close>

theorem usage_error_without_arguments:
  assumes "length argv < 2"
  shows "main_text fitz_open argv =
           Exited [] [\<lparr>success = False, result.text = None, pageCount = None, pages = None,
                        images = None, totalImages = None,
                        error = Some (lit ''Usage: python3 extract-pdf-pymupdf.py <pdf_file_path>''),
                        method = lit ''pymupdf''\<rparr>] 1 \<and>
         main_images env argv =
           Exited [] [\<lparr>success = False, result.text = None, pageCount = None, pages = None,
                        images = None, totalImages = None,
                        error = Some (lit
                          ''Usage: python3 extract-pdf-images.py <pdf_file_path> [output_directory]''),
                        method = lit ''pymupdf''\<rparr>] 1"
  using assms
  by (simp add: main_text_def main_images_def text_usage_def images_usage_def failure_def)

theorem usage_error_without_arguments_witness:
  "length [[115::nat]] < 2 \<and>
   main_text (\<lambda>p. Inr sample_pages) [[115]] =
           Exited [] [\<lparr>success = False, result.text = None, pageCount = None, pages = None,
                        images = None, totalImages = None,
                        error = Some (lit ''Usage: python3 extract-pdf-pymupdf.py <pdf_file_path>''),
                        method = lit ''pymupdf''\<rparr>] 1 \<and>
   main_images (sample_env sample_doc) [[115]] =
           Exited [] [\<lparr>success = False, result.text = None, pageCount = None, pages = None,
                        images = None, totalImages = None,
                        error = Some (lit
                          ''Usage: python3 extract-pdf-images.py <pdf_file_path> [output_directory]''),
                        method = lit ''pymupdf''\<rparr>] 1"
proof -
  have l: "length [[115::nat]] < 2" by simp
  from usage_error_without_arguments [OF l, of "\<lambda>p. Inr sample_pages" "sample_env sample_doc"] l
  show ?thesis by blast
qed





lemma candidates_of_append:
  "candidates_of (xs @ ys) = candidates_of xs @ candidates_of ys"
proof (induction xs)
  case Nil
  show ?case by simp
next
  case (Cons x xs)
  then show ?case by (cases x) simp_all
qed

lemma sample_page_qualifying:
  assumes "extract_image doc = sample_extract" and "writable env = (\<lambda>p. True)"
  shows "\<exists>a. List.map_filter (process_candidate env doc od 100)
               (candidates_of (page_items k (Inr sample_page))) = [a] \<and>
             xref (fst a) = 7 \<and> image_info.pageNumber (fst a) = k + 1"
  using assms
  by (simp add: page_items_def sample_page_def process_candidate_def process_image_def
      sample_extract_def sample_image_def tiny_image_def Let_def)

lemma upt_shift: "map f [0..<Suc n] = f 0 # map (f \<circ> Suc) [0..<n]"
proof -
  have "[0..<Suc n] = 0 # map Suc [0..<n]"
    by (simp only: map_Suc_upt upt_conv_Cons zero_less_Suc)
  then show ?thesis by simp
qed

lemma sample_pages_qualifying:
  assumes "extract_image doc = sample_extract" and "writable env = (\<lambda>p. True)"
  shows "map (\<lambda>a. (image_info.pageNumber (fst a), xref (fst a)))
           (List.map_filter (process_candidate env doc od 100)
              (candidates_of (items_from k (replicate n (Inr sample_page))))) =
         map (\<lambda>j. (k + 1 + int j, 7)) [0..<n]"
proof (induction n arbitrary: k)
  case 0
  show ?case by simp
next
  case (Suc n)
  from sample_page_qualifying [OF assms, of od k] obtain a where
    "List.map_filter (process_candidate env doc od 100)
       (candidates_of (page_items k (Inr sample_page))) = [a]"
    and "xref (fst a) = 7" and "image_info.pageNumber (fst a) = k + 1"
    by blast
  with Suc [of "k + 1"] show ?case
    by (simp add: candidates_of_append map_filter_append upt_shift comp_def add.assoc
        del: upt_Suc)
qed

lemma sample_doc_records:
  "map (\<lambda>a. (image_info.pageNumber (fst a), xref (fst a)))
     (qualifying (sample_env sample_doc) sample_doc od 100) = [(1, 7), (2, 7)]"
proof -
  have e: "extract_image sample_doc = sample_extract"
    by (simp add: sample_doc_def pages_doc_def)
  have w: "writable (sample_env sample_doc) = (\<lambda>p. True)" by (simp add: sample_env_def)
  have p: "doc_pages sample_doc = replicate 2 (Inr sample_page)"
    by (simp add: sample_doc_def pages_doc_def numeral_2_eq_2)
  from sample_pages_qualifying [OF e w, of od 0 2] show ?thesis
    by (simp add: qualifying_def candidates_def p numeral_2_eq_2)
qed

lemma many_doc_records:
  "map (\<lambda>a. (image_info.pageNumber (fst a), xref (fst a)))
     (qualifying (sample_env many_doc) many_doc od 100) = map (\<lambda>j. (1 + int j, 7)) [0..<51]"
proof -
  have e: "extract_image many_doc = sample_extract"
    by (simp add: many_doc_def pages_doc_def)
  have w: "writable (sample_env many_doc) = (\<lambda>p. True)" by (simp add: sample_env_def)
  have p: "doc_pages many_doc = replicate 51 (Inr sample_page)"
    by (simp add: many_doc_def pages_doc_def)
  from sample_pages_qualifying [OF e w, of od 0 51] show ?thesis
    by (simp only: qualifying_def candidates_def p add_0)
qed

lemma many_doc_count:
  "length (qualifying (sample_env many_doc) many_doc od 100) = 51"
proof -
  have "length (map (\<lambda>a. (image_info.pageNumber (fst a), xref (fst a)))
     (qualifying (sample_env many_doc) many_doc od 100)) = 51"
    unfolding many_doc_records by simp
  then show ?thesis by simp
qed

lemma many_doc_success:
  "success (fst (extract_images_from_pdf (sample_env many_doc) [] od mx mn))"
  by (rule extract_images_calls_return [of _ _ many_doc])
    (simp_all add: sample_env_def many_doc_def pages_doc_def calls_return_def sample_page_def
      list_all_iff)

text \<open>
  Claim C6. Every returned record comes from one mode. Called without an output directory
  (\<open>None\<close>; the empty string counts the same in \<open>if output_dir:\<close>), a record carries
  \<open>base64\<close>, which decodes to the bytes \<open>doc.extract_image\<close> gave for its \<open>xref\<close>,
  \<open>sizeBytes\<close> is the number of those bytes, \<open>mimeType\<close> is \<open>image/\<close> followed by the
  extension, and there is no \<open>filepath\<close>. Called with a directory, a record carries
  \<open>filepath\<close>, the directory joined with its file name, and neither \<open>base64\<close> nor
  \<open>mimeType\<close>.
\<close>

theorem inline_or_file_records:
  assumes "open_doc env pdf_path = Inr doc"
    and "images (fst (extract_images_from_pdf env pdf_path output_dir max_images min_size)) =
           Some imgs"
    and "r \<in> set imgs"
  shows "(\<not> truthy output_dir \<longrightarrow>
            (\<exists>bi data ext.
               extract_image doc (xref r) = ExtractDict bi \<and> image_key bi = Some data \<and>
               ext_key bi = Some ext \<and>
               base64 r = Some (b64encode data) \<and> b64decode (b64encode data) = Some data \<and>
               sizeBytes r = int (length data) \<and>
               mimeType r = Some (lit ''image/'' @ ext) \<and> extension r = ext \<and>
               filepath r = None)) \<and>
         (truthy output_dir \<longrightarrow>
            filepath r = Some (path_join (dir_of output_dir) (filename r)) \<and>
            base64 r = None \<and> mimeType r = None)"
proof -
  from images_some_success [OF assms(2)] obtain doc' where "open_doc env pdf_path = Inr doc'"
    and "extract_images_from_pdf env pdf_path output_dir max_images min_size =
      (\<lparr>success = True, result.text = None,
        pageCount = Some (int (length (doc_pages doc'))), pages = None,
        images = Some (map fst (take (nat max_images) (qualifying env doc' output_dir min_size))),
        totalImages =
          Some (int (length (take (nat max_images) (qualifying env doc' output_dir min_size)))),
        error = None, method = lit ''pymupdf''\<rparr>,
       concat (map (\<lambda>a. case snd a of None \<Rightarrow> [] | Some f \<Rightarrow> [f])
         (take (nat max_images) (qualifying env doc' output_dir min_size))))"
    by (rule extract_images_success)
  with assms(1,2)
  have "imgs = map fst (take (nat max_images) (qualifying env doc output_dir min_size))"
    by simp
  with assms(3) obtain a where
    "a \<in> set (take (nat max_images) (qualifying env doc output_dir min_size))"
    and r: "r = fst a"
    by auto
  from qualifying_member [OF this(1)] obtain n page i xr
    where "process_image env doc page output_dir min_size n i xr = Some a"
    by blast
  from process_image_Some [OF this] r show ?thesis
    by (auto simp add: b64_roundtrip)
qed

theorem inline_or_file_records_witness:
  "(\<exists>imgs r bi data ext.
      images (fst (extract_images_from_pdf (sample_env sample_doc) [] None 50 100)) = Some imgs \<and>
      r \<in> set imgs \<and>
      extract_image sample_doc (xref r) = ExtractDict bi \<and> image_key bi = Some data \<and>
      ext_key bi = Some ext \<and>
      base64 r = Some (b64encode data) \<and> b64decode (b64encode data) = Some data \<and>
      sizeBytes r = int (length data) \<and>
      mimeType r = Some (lit ''image/'' @ ext) \<and> extension r = ext \<and> filepath r = None) \<and>
   (\<exists>imgs r.
      images (fst (extract_images_from_pdf (sample_env sample_doc) [] (Some [100]) 50 100)) =
        Some imgs \<and>
      r \<in> set imgs \<and>
      filepath r = Some (path_join [100] (filename r)) \<and> base64 r = None \<and> mimeType r = None)"
proof -
  have o: "open_doc (sample_env sample_doc) [] = Inr sample_doc"
    by (simp add: sample_env_def)
  have i: "\<exists>imgs. images (fst (extract_images_from_pdf (sample_env sample_doc) [] od 50 100)) =
       Some imgs \<and> imgs \<noteq> []" for od
  proof -
    from sample_doc_success [of od 50 100] obtain doc' where
      "open_doc (sample_env sample_doc) [] = Inr doc'"
      and "images (fst (extract_images_from_pdf (sample_env sample_doc) [] od 50 100)) =
        Some (map fst (take (nat 50) (qualifying (sample_env sample_doc) doc' od 100)))"
      by (rule extract_images_success) simp
    with o have "images (fst (extract_images_from_pdf (sample_env sample_doc) [] od 50 100)) =
        Some (map fst (take (nat 50) (qualifying (sample_env sample_doc) sample_doc od 100)))"
      by simp
    moreover have "map fst (take (nat 50) (qualifying (sample_env sample_doc) sample_doc od 100))
        \<noteq> []"
      using sample_doc_records [of od] by auto
    ultimately show ?thesis by blast
  qed
  have t: "\<not> truthy None" "truthy (Some [100])" "dir_of (Some [100]) = [100]"
    by simp_all
  from i [of None] obtain imgs1 where i1:
    "images (fst (extract_images_from_pdf (sample_env sample_doc) [] None 50 100)) = Some imgs1"
    and n1: "imgs1 \<noteq> []" by blast
  from n1 have m1: "hd imgs1 \<in> set imgs1" by simp
  from inline_or_file_records [OF o i1 m1] t(1) i1 m1
  have a: "\<exists>imgs r bi data ext.
      images (fst (extract_images_from_pdf (sample_env sample_doc) [] None 50 100)) = Some imgs \<and>
      r \<in> set imgs \<and>
      extract_image sample_doc (xref r) = ExtractDict bi \<and> image_key bi = Some data \<and>
      ext_key bi = Some ext \<and>
      base64 r = Some (b64encode data) \<and> b64decode (b64encode data) = Some data \<and>
      sizeBytes r = int (length data) \<and>
      mimeType r = Some (lit ''image/'' @ ext) \<and> extension r = ext \<and> filepath r = None"
    by blast
  from i [of "Some [100]"] obtain imgs2 where i2:
    "images (fst (extract_images_from_pdf (sample_env sample_doc) [] (Some [100]) 50 100)) =
       Some imgs2"
    and n2: "imgs2 \<noteq> []" by blast
  from n2 have m2: "hd imgs2 \<in> set imgs2" by simp
  from inline_or_file_records [OF o i2 m2] t(2,3) i2 m2
  have b: "\<exists>imgs r.
      images (fst (extract_images_from_pdf (sample_env sample_doc) [] (Some [100]) 50 100)) =
        Some imgs \<and>
      r \<in> set imgs \<and>
      filepath r = Some (path_join [100] (filename r)) \<and> base64 r = None \<and> mimeType r = None"
    by (metis (no_types, lifting))
  from a b show ?thesis by (rule conjI)
qed

text \<open>
  Claim C5. With the limits \<open>main\<close> uses, the records a successful run returns are the
  first 50 qualifying images of the document in order: never more than 50, and exactly 50
  when more than 50 qualify. Once the count has reached 50 the page loop and the image
  loop return at once, leaving records, count and written files as they are and raising
  nothing.
\<close>

theorem at_most_fifty_images:
  assumes "open_doc env pdf_path = Inr doc"
    and "success (fst (extract_images_from_pdf env pdf_path output_dir 50 100))"
  shows "\<exists>imgs.
     images (fst (extract_images_from_pdf env pdf_path output_dir 50 100)) = Some imgs \<and>
     imgs = map fst (take 50 (qualifying env doc output_dir 100)) \<and>
     length imgs \<le> 50 \<and>
     (50 < length (qualifying env doc output_dir 100) \<longrightarrow> length imgs = 50) \<and>
     (\<forall>ps n st. 50 \<le> total_extracted st \<longrightarrow>
        images_page_loop env doc output_dir 50 100 ps n st = (st, None)) \<and>
     (\<forall>page n entries st. 50 \<le> total_extracted st \<longrightarrow>
        image_loop env doc page output_dir 50 100 n entries st = (st, None))"
proof -
  from assms(2) obtain doc' where "open_doc env pdf_path = Inr doc'"
    and "images (fst (extract_images_from_pdf env pdf_path output_dir 50 100)) =
        Some (map fst (take (nat 50) (qualifying env doc' output_dir 100)))"
    by (rule extract_images_success) simp
  with assms(1) have "images (fst (extract_images_from_pdf env pdf_path output_dir 50 100)) =
      Some (map fst (take 50 (qualifying env doc output_dir 100)))"
    by simp
  moreover have "length (map fst (take 50 (qualifying env doc output_dir 100))) \<le> 50"
    by simp
  moreover have "50 < length (qualifying env doc output_dir 100) \<longrightarrow>
      length (map fst (take 50 (qualifying env doc output_dir 100))) = 50"
    by simp
  moreover have "images_page_loop env doc output_dir 50 100 ps n st = (st, None)"
    if "50 \<le> total_extracted st" for ps n st
    using that by (cases ps) simp_all
  moreover have "image_loop env doc page output_dir 50 100 n entries st = (st, None)"
    if "50 \<le> total_extracted st" for page n entries st
    using that by (cases entries) auto
  ultimately show ?thesis by blast
qed

theorem at_most_fifty_images_witness:
  "success (fst (extract_images_from_pdf (sample_env many_doc) [] None 50 100)) \<and>
   50 < length (qualifying (sample_env many_doc) many_doc None 100) \<and>
   (\<exists>imgs.
     images (fst (extract_images_from_pdf (sample_env many_doc) [] None 50 100)) = Some imgs \<and>
     length imgs = 50) \<and>
   images_page_loop (sample_env many_doc) many_doc None 50 100 [Inr sample_page] 9
     \<lparr>images_data = [], total_extracted = 50, written = []\<rparr> =
     (\<lparr>images_data = [], total_extracted = 50, written = []\<rparr>, None) \<and>
   image_loop (sample_env many_doc) many_doc sample_page None 50 100 9 [(0, Inr 7)]
     \<lparr>images_data = [], total_extracted = 50, written = []\<rparr> =
     (\<lparr>images_data = [], total_extracted = 50, written = []\<rparr>, None)"
proof -
  have o: "open_doc (sample_env many_doc) [] = Inr many_doc"
    by (simp add: sample_env_def)
  have s: "success (fst (extract_images_from_pdf (sample_env many_doc) [] None 50 100))"
    by (rule many_doc_success)
  have c: "50 < length (qualifying (sample_env many_doc) many_doc None 100)"
    by (simp add: many_doc_count)
  have t: "50 \<le> total_extracted \<lparr>images_data = [], total_extracted = 50, written = []\<rparr>"
    by simp
  from at_most_fifty_images [OF o s] c t s show ?thesis
    by blast
qed

text \<open>
  Claim C7, as the code has it. Every record the extractor returns has a width and a
  height of at least 100, those \<open>doc.extract_image\<close> reports for its \<open>xref\<close> (a missing
  one counts as 0), so an image with a dimension under 100 is never returned. An image of
  at least 100 by 100 is returned when it extracts cleanly (the dictionary has its bytes
  and extension, its rectangles can be read, and its file can be written when a directory
  is given) and at most 50 images of the document qualify.
\<close>

theorem size_threshold_of_records:
  assumes "open_doc env pdf_path = Inr doc"
    and "images (fst (extract_images_from_pdf env pdf_path output_dir 50 100)) = Some imgs"
  shows "(\<forall>r\<in>set imgs.
            100 \<le> width r \<and> 100 \<le> height r \<and>
            (\<exists>bi. extract_image doc (xref r) = ExtractDict bi \<and>
                  width r = (case width_key bi of None \<Rightarrow> 0 | Some v \<Rightarrow> v) \<and>
                  height r = (case height_key bi of None \<Rightarrow> 0 | Some v \<Rightarrow> v))) \<and>
         (\<forall>n page i xr bi data ext rects.
            (n, page, i, xr) \<in> set (candidates doc) \<and>
            extract_image doc xr = ExtractDict bi \<and> image_key bi = Some data \<and>
            ext_key bi = Some ext \<and> get_image_rects page xr = Some rects \<and>
            (truthy output_dir \<longrightarrow>
               writable env (path_join (dir_of output_dir) (image_filename n i ext))) \<and>
            100 \<le> (case width_key bi of None \<Rightarrow> 0 | Some v \<Rightarrow> v) \<and>
            100 \<le> (case height_key bi of None \<Rightarrow> 0 | Some v \<Rightarrow> v) \<and>
            length (qualifying env doc output_dir 100) \<le> 50 \<longrightarrow>
            (\<exists>r. r \<in> set imgs \<and> image_info.pageNumber r = n + 1 \<and> imageIndex r = i \<and>
                 xref r = xr \<and>
                 width r = (case width_key bi of None \<Rightarrow> 0 | Some v \<Rightarrow> v) \<and>
                 height r = (case height_key bi of None \<Rightarrow> 0 | Some v \<Rightarrow> v)))"
proof -
  define Q where "Q = qualifying env doc output_dir 100"
  from images_some_success [OF assms(2)] obtain doc' where "open_doc env pdf_path = Inr doc'"
    and "images (fst (extract_images_from_pdf env pdf_path output_dir 50 100)) =
        Some (map fst (take (nat 50) (qualifying env doc' output_dir 100)))"
    by (rule extract_images_success) simp
  with assms have imgs: "imgs = map fst (take 50 Q)"
    by (simp add: Q_def)
  have small: "100 \<le> width r \<and> 100 \<le> height r \<and>
            (\<exists>bi. extract_image doc (xref r) = ExtractDict bi \<and>
                  width r = (case width_key bi of None \<Rightarrow> 0 | Some v \<Rightarrow> v) \<and>
                  height r = (case height_key bi of None \<Rightarrow> 0 | Some v \<Rightarrow> v))"
    if "r \<in> set imgs" for r
  proof -
    from that imgs obtain a where "a \<in> set (take 50 Q)" and r: "r = fst a"
      by auto
    from qualifying_member [OF this(1) [unfolded Q_def]] obtain n page i xr
      where p: "process_image env doc page output_dir 100 n i xr = Some a"
      by blast
    from process_image_Some [OF p] have "xref (fst a) = xr" by blast
    with process_image_dims [OF p] r show ?thesis by auto
  qed
  have large: "\<exists>r. r \<in> set imgs \<and> image_info.pageNumber r = n + 1 \<and> imageIndex r = i \<and>
                 xref r = xr \<and>
                 width r = (case width_key bi of None \<Rightarrow> 0 | Some v \<Rightarrow> v) \<and>
                 height r = (case height_key bi of None \<Rightarrow> 0 | Some v \<Rightarrow> v)"
    if c: "(n, page, i, xr) \<in> set (candidates doc)"
      and e: "extract_image doc xr = ExtractDict bi" "image_key bi = Some data"
        "ext_key bi = Some ext" "get_image_rects page xr = Some rects"
        "truthy output_dir \<longrightarrow>
           writable env (path_join (dir_of output_dir) (image_filename n i ext))"
      and d: "100 \<le> (case width_key bi of None \<Rightarrow> 0 | Some v \<Rightarrow> v)"
        "100 \<le> (case height_key bi of None \<Rightarrow> 0 | Some v \<Rightarrow> v)"
      and l: "length Q \<le> 50"
    for n page i xr bi data ext rects
  proof -
    from process_image_clean [OF e, of 100] d
    obtain a where p: "process_image env doc page output_dir 100 n i xr = Some a"
      by auto
    with c have "a \<in> set Q"
      unfolding Q_def qualifying_def set_map_filter
      by (auto simp add: process_candidate_def intro!: bexI [of _ "(n, page, i, xr)"])
    with l imgs have "fst a \<in> set imgs" by simp
    moreover from process_image_Some [OF p]
    have "image_info.pageNumber (fst a) = n + 1" "imageIndex (fst a) = i" "xref (fst a) = xr"
      by blast+
    moreover from process_image_dims [OF p] e(1)
    have "width (fst a) = (case width_key bi of None \<Rightarrow> 0 | Some v \<Rightarrow> v)"
      "height (fst a) = (case height_key bi of None \<Rightarrow> 0 | Some v \<Rightarrow> v)"
      by auto
    ultimately show ?thesis by blast
  qed
  from small large show ?thesis
    unfolding Q_def by blast
qed

theorem size_threshold_of_records_witness:
  "\<exists>imgs r. images (fst (extract_images_from_pdf (sample_env sample_doc) [] None 50 100)) =
       Some imgs \<and>
     r \<in> set imgs \<and> image_info.pageNumber r = 1 \<and> imageIndex r = 0 \<and> xref r = 7 \<and>
     width r = 100 \<and> height r = 100 \<and> 100 \<le> width r \<and> 100 \<le> height r"
proof -
  have o: "open_doc (sample_env sample_doc) [] = Inr sample_doc"
    by (simp add: sample_env_def)
  from sample_doc_success [of None 50 100] obtain doc' where
    "open_doc (sample_env sample_doc) [] = Inr doc'"
    and "images (fst (extract_images_from_pdf (sample_env sample_doc) [] None 50 100)) =
        Some (map fst (take (nat 50) (qualifying (sample_env sample_doc) doc' None 100)))"
    by (rule extract_images_success) simp
  then obtain imgs where i:
    "images (fst (extract_images_from_pdf (sample_env sample_doc) [] None 50 100)) = Some imgs"
    by blast
  have c: "(0, sample_page, 0, 7) \<in> set (candidates sample_doc)"
    by (simp add: candidates_def sample_doc_def pages_doc_def page_items_def sample_page_def)
  have e: "extract_image sample_doc 7 = ExtractDict sample_image"
    by (simp add: sample_doc_def pages_doc_def sample_extract_def)
  have k: "image_key sample_image = Some [1, 2, 3, 4]" "ext_key sample_image = Some (lit ''png'')"
    by (simp_all add: sample_image_def)
  have g: "get_image_rects sample_page 7 = Some []"
    by (simp add: sample_page_def)
  have w: "truthy None \<longrightarrow> writable (sample_env sample_doc)
      (path_join (dir_of None) (image_filename 0 0 (lit ''png'')))"
    by simp
  have d: "100 \<le> (case width_key sample_image of None \<Rightarrow> 0 | Some v \<Rightarrow> v)"
    "100 \<le> (case height_key sample_image of None \<Rightarrow> 0 | Some v \<Rightarrow> v)"
    "(case width_key sample_image of None \<Rightarrow> 0 | Some v \<Rightarrow> v) = 100"
    "(case height_key sample_image of None \<Rightarrow> 0 | Some v \<Rightarrow> v) = 100"
    by (simp_all add: sample_image_def)
  have l: "length (qualifying (sample_env sample_doc) sample_doc None 100) \<le> 50"
  proof -
    have "length (map (\<lambda>a. (image_info.pageNumber (fst a), xref (fst a)))
        (qualifying (sample_env sample_doc) sample_doc None 100)) = 2"
      unfolding sample_doc_records by simp
    then show ?thesis by simp
  qed
  from size_threshold_of_records [OF o i] have
    small: "\<forall>r\<in>set imgs. 100 \<le> width r \<and> 100 \<le> height r \<and>
            (\<exists>bi. extract_image sample_doc (xref r) = ExtractDict bi \<and>
                  width r = (case width_key bi of None \<Rightarrow> 0 | Some v \<Rightarrow> v) \<and>
                  height r = (case height_key bi of None \<Rightarrow> 0 | Some v \<Rightarrow> v))"
    and large: "\<forall>n page i xr bi data ext rects.
            (n, page, i, xr) \<in> set (candidates sample_doc) \<and>
            extract_image sample_doc xr = ExtractDict bi \<and> image_key bi = Some data \<and>
            ext_key bi = Some ext \<and> get_image_rects page xr = Some rects \<and>
            (truthy None \<longrightarrow>
               writable (sample_env sample_doc)
                 (path_join (dir_of None) (image_filename n i ext))) \<and>
            100 \<le> (case width_key bi of None \<Rightarrow> 0 | Some v \<Rightarrow> v) \<and>
            100 \<le> (case height_key bi of None \<Rightarrow> 0 | Some v \<Rightarrow> v) \<and>
            length (qualifying (sample_env sample_doc) sample_doc None 100) \<le> 50 \<longrightarrow>
            (\<exists>r. r \<in> set imgs \<and> image_info.pageNumber r = n + 1 \<and> imageIndex r = i \<and>
                 xref r = xr \<and>
                 width r = (case width_key bi of None \<Rightarrow> 0 | Some v \<Rightarrow> v) \<and>
                 height r = (case height_key bi of None \<Rightarrow> 0 | Some v \<Rightarrow> v))"
    by blast+
  from large [rule_format, of 0 sample_page 0 7 sample_image "[1, 2, 3, 4]" "lit ''png''" "[]"]
    c e k g w d(1,2) l
  obtain r where r: "r \<in> set imgs" "image_info.pageNumber r = 0 + 1" "imageIndex r = 0"
    "xref r = 7"
    "width r = (case width_key sample_image of None \<Rightarrow> 0 | Some v \<Rightarrow> v)"
    "height r = (case height_key sample_image of None \<Rightarrow> 0 | Some v \<Rightarrow> v)"
    by blast
  from small r(1) have "100 \<le> width r \<and> 100 \<le> height r" by blast
  with r d(3,4) i show ?thesis by auto
qed

lemma shifted_upt: "map (\<lambda>j. 1 + int j) [0..<n] = map int [1..<Suc n]"
proof -
  have "[1..<Suc n] = map Suc [0..<n]"
    by (simp only: map_Suc_upt One_nat_def)
  then show ?thesis by (simp add: comp_def)
qed

text \<open>
  The picture on page 51 of a document with one large picture on each of 51 pages is
  100 by 100 and extracts cleanly, and is not returned; neither is a picture of
  100 by 100 whose rectangles cannot be read.
\<close>

theorem large_image_left_out:
  "doc_pages many_doc ! 50 = Inr sample_page \<and>
   get_images sample_page = Inr [Inr 7, Inr 8] \<and>
   extract_image many_doc 7 = ExtractDict sample_image \<and>
   width_key sample_image = Some 100 \<and> height_key sample_image = Some 100 \<and>
   process_image (sample_env many_doc) many_doc sample_page None 100 50 0 7 \<noteq> None \<and>
   success (fst (extract_images_from_pdf (sample_env many_doc) [] None 50 100)) \<and>
   map_option (map image_info.pageNumber)
     (images (fst (extract_images_from_pdf (sample_env many_doc) [] None 50 100))) =
     Some (map int [1..<51]) \<and>
   extract_image rectless_doc 7 = ExtractDict sample_image \<and>
   images (fst (extract_images_from_pdf (sample_env rectless_doc) [] None 50 100)) = Some []"
proof -
  have o: "open_doc (sample_env many_doc) [] = Inr many_doc"
    by (simp add: sample_env_def)
  have s: "success (fst (extract_images_from_pdf (sample_env many_doc) [] None 50 100))"
    by (rule many_doc_success)
  then obtain doc' where "open_doc (sample_env many_doc) [] = Inr doc'"
    and "images (fst (extract_images_from_pdf (sample_env many_doc) [] None 50 100)) =
        Some (map fst (take (nat 50) (qualifying (sample_env many_doc) doc' None 100)))"
    by (rule extract_images_success) simp
  with o have i: "images (fst (extract_images_from_pdf (sample_env many_doc) [] None 50 100)) =
        Some (map fst (take 50 (qualifying (sample_env many_doc) many_doc None 100)))"
    by simp
  have "map image_info.pageNumber
          (map fst (take 50 (qualifying (sample_env many_doc) many_doc None 100))) =
        take 50 (map fst (map (\<lambda>a. (image_info.pageNumber (fst a), xref (fst a)))
          (qualifying (sample_env many_doc) many_doc None 100)))"
    by (simp add: take_map comp_def)
  also have "\<dots> = take 50 (map (\<lambda>j. 1 + int j) [0..<51])"
    unfolding many_doc_records by (simp add: comp_def)
  also have "\<dots> = map (\<lambda>j. 1 + int j) [0..<50]"
    by (simp add: take_map del: upt_Suc)
  also have "\<dots> = map int [1..<51]"
    using shifted_upt [of 50] by simp
  finally have n: "map_option (map image_info.pageNumber)
     (images (fst (extract_images_from_pdf (sample_env many_doc) [] None 50 100))) =
     Some (map int [1..<51])"
    by (simp add: i)
  have p: "doc_pages many_doc ! 50 = Inr sample_page"
    by (simp add: many_doc_def pages_doc_def)
  have g: "get_images sample_page = Inr [Inr 7, Inr 8]"
    by (simp add: sample_page_def)
  have e: "extract_image many_doc 7 = ExtractDict sample_image"
    by (simp add: many_doc_def pages_doc_def sample_extract_def)
  have d: "width_key sample_image = Some 100" "height_key sample_image = Some 100"
    by (simp_all add: sample_image_def)
  have q: "process_image (sample_env many_doc) many_doc sample_page None 100 50 0 7 \<noteq> None"
    by (simp add: process_image_def e sample_image_def sample_page_def Let_def)
  have e': "extract_image rectless_doc 7 = ExtractDict sample_image"
    by (simp add: rectless_doc_def pages_doc_def sample_extract_def)
  have r: "images (fst (extract_images_from_pdf (sample_env rectless_doc) [] None 50 100)) =
      Some []"
    by (simp add: extract_images_from_pdf_def sample_env_def rectless_doc_def pages_doc_def
        process_image_def sample_extract_def sample_image_def Let_def)
  from p g e d q s n e' r show ?thesis by blast
qed

lemma distinct_map_filter:
  assumes "distinct (map g xs)"
    and "\<And>x a. x \<in> set xs \<Longrightarrow> f x = Some a \<Longrightarrow> h a = g x"
  shows "distinct (map h (List.map_filter f xs))"
  using assms
proof (induction xs)
  case Nil
  show ?case by simp
next
  case (Cons x xs)
  from Cons.prems have d: "distinct (map h (List.map_filter f xs))"
    by (intro Cons.IH) auto
  show ?case
  proof (cases "f x")
    case None
    with d show ?thesis by simp
  next
    case (Some a)
    have "h a \<notin> h ` set (List.map_filter f xs)"
    proof
      assume "h a \<in> h ` set (List.map_filter f xs)"
      then obtain b where "b \<in> set (List.map_filter f xs)" and hb: "h b = h a" by auto
      then obtain y where y: "y \<in> set xs" and "f y = Some b"
        by (auto simp add: set_map_filter)
      with Cons.prems(2) [of y b] have "h b = g y" by simp
      moreover from Cons.prems(2) [of x a] Some have "h a = g x" by simp
      ultimately have "g x = g y" using hb by simp
      with y Cons.prems(1) show False by auto
    qed
    with d Some show ?thesis by simp
  qed
qed

lemma entry_candidates:
  "(\<forall>c\<in>set (candidates_of (map (\<lambda>(i, img_info).
        case img_info of Inl e \<Rightarrow> Raises e | Inr xr \<Rightarrow> Candidate (n, page, i, xr))
      (enumerate_from k xs))). fst c = n \<and> k \<le> fst (snd (snd c))) \<and>
   distinct (map (\<lambda>c. fst (snd (snd c))) (candidates_of (map (\<lambda>(i, img_info).
        case img_info of Inl e \<Rightarrow> Raises e | Inr xr \<Rightarrow> Candidate (n, page, i, xr))
      (enumerate_from k xs))))"
proof (induction xs arbitrary: k)
  case Nil
  show ?case by simp
next
  case (Cons x xs)
  show ?case
  proof (cases x)
    case (Inl e)
    with Cons [of "k + 1"] show ?thesis by fastforce
  next
    case (Inr xr)
    with Cons [of "k + 1"] show ?thesis by fastforce
  qed
qed

lemma page_candidates_positions:
  "(\<forall>c\<in>set (candidates_of (page_items n p)). fst c = n) \<and>
   distinct (map (\<lambda>c. fst (snd (snd c))) (candidates_of (page_items n p)))"
proof (cases p)
  case (Inl e)
  then show ?thesis by (simp add: page_items_def)
next
  case (Inr page)
  show ?thesis
  proof (cases "get_images page")
    case (Inl e)
    with Inr show ?thesis by (simp add: page_items_def)
  next
    case (Inr image_list)
    with \<open>p = Inr page\<close> entry_candidates [of n page 0 image_list] show ?thesis
      by (simp add: page_items_def)
  qed
qed

lemma candidates_lower: "c \<in> set (candidates_of (items_from n ps)) \<Longrightarrow> n \<le> fst c"
proof (induction ps arbitrary: n)
  case Nil
  then show ?case by simp
next
  case (Cons p ps)
  from Cons.prems consider "c \<in> set (candidates_of (page_items n p))"
    | "c \<in> set (candidates_of (items_from (n + 1) ps))"
    by (auto simp add: candidates_of_append)
  then show ?case
  proof cases
    case 1
    with page_candidates_positions [of n p] show ?thesis by auto
  next
    case 2
    from Cons.IH [OF this] show ?thesis by simp
  qed
qed

lemma candidates_positions_distinct:
  "distinct (map (\<lambda>c. (fst c + 1, fst (snd (snd c)))) (candidates_of (items_from n ps)))"
proof (induction ps arbitrary: n)
  case Nil
  show ?case by simp
next
  case (Cons p ps)
  have same: "\<forall>c\<in>set (candidates_of (page_items n p)). fst c = n"
    and idx: "distinct (map (\<lambda>c. fst (snd (snd c))) (candidates_of (page_items n p)))"
    using page_candidates_positions [of n p] by blast+
  from same have "map (\<lambda>c. (fst c + 1, fst (snd (snd c)))) (candidates_of (page_items n p)) =
      map (\<lambda>i. (n + 1, i)) (map (\<lambda>c. fst (snd (snd c))) (candidates_of (page_items n p)))"
    by simp
  with idx have here:
    "distinct (map (\<lambda>c. (fst c + 1, fst (snd (snd c)))) (candidates_of (page_items n p)))"
    by (simp only: distinct_map) (simp add: inj_on_def)
  have apart: "(\<lambda>c. (fst c + 1, fst (snd (snd c)))) ` set (candidates_of (page_items n p)) \<inter>
      (\<lambda>c. (fst c + 1, fst (snd (snd c)))) ` set (candidates_of (items_from (n + 1) ps)) = {}"
  proof -
    have "n + 1 \<le> fst c" if "c \<in> set (candidates_of (items_from (n + 1) ps))" for c
      using that by (rule candidates_lower)
    with same show ?thesis by fastforce
  qed
  from here Cons.IH [of "n + 1"] apart show ?case
    by (simp add: candidates_of_append)
qed

lemma process_candidate_fields:
  assumes "process_candidate env doc od mn c = Some a"
  shows "image_info.pageNumber (fst a) = fst c + 1" "imageIndex (fst a) = fst (snd (snd c))"
    "xref (fst a) = candidate_xref c"
proof -
  obtain n page i xr where c: "c = (n, page, i, xr)" by (cases c)
  with assms have "process_image env doc page od mn n i xr = Some a"
    by (simp add: process_candidate_def)
  from process_image_Some [OF this] c
  show "image_info.pageNumber (fst a) = fst c + 1" "imageIndex (fst a) = fst (snd (snd c))"
    "xref (fst a) = candidate_xref c"
    by auto
qed

text \<open>
  Claim C3, as the code has it. The extractor keeps no set of the \<open>xref\<close>s it has seen.
  Each returned record stands for one listed image: no two records share both
  \<open>pageNumber\<close> and \<open>imageIndex\<close>, and the \<open>xref\<close> of a record is the one the library
  listed at that place. So no two records share an \<open>xref\<close> when the library lists no
  \<open>xref\<close> twice in the whole document, and otherwise they may.
\<close>

theorem xref_taken_from_listing:
  assumes "open_doc env pdf_path = Inr doc"
    and "success (fst (extract_images_from_pdf env pdf_path output_dir max_images min_size))"
  shows "\<exists>imgs.
     images (fst (extract_images_from_pdf env pdf_path output_dir max_images min_size)) =
       Some imgs \<and>
     distinct (map (\<lambda>r. (image_info.pageNumber r, imageIndex r)) imgs) \<and>
     (\<forall>r\<in>set imgs. \<exists>page.
        (image_info.pageNumber r - 1, page, imageIndex r, xref r) \<in> set (candidates doc)) \<and>
     (distinct (map candidate_xref (candidates doc)) \<longrightarrow> distinct (map xref imgs))"
proof -
  define Q where "Q = qualifying env doc output_dir min_size"
  define imgs where "imgs = map fst (take (nat max_images) Q)"
  from assms(2) obtain doc' where "open_doc env pdf_path = Inr doc'"
    and "images (fst (extract_images_from_pdf env pdf_path output_dir max_images min_size)) =
        Some (map fst (take (nat max_images) (qualifying env doc' output_dir min_size)))"
    by (rule extract_images_success) simp
  with assms(1)
  have i: "images (fst (extract_images_from_pdf env pdf_path output_dir max_images min_size)) =
      Some imgs"
    by (simp add: imgs_def Q_def)
  have "distinct (map (\<lambda>a. (image_info.pageNumber (fst a), imageIndex (fst a))) Q)"
    unfolding Q_def qualifying_def candidates_def
    by (rule distinct_map_filter [OF candidates_positions_distinct])
      (simp add: process_candidate_fields)
  then have "distinct (take (nat max_images)
      (map (\<lambda>a. (image_info.pageNumber (fst a), imageIndex (fst a))) Q))"
    by (rule distinct_take)
  then have places: "distinct (map (\<lambda>r. (image_info.pageNumber r, imageIndex r)) imgs)"
    by (simp add: imgs_def take_map comp_def)
  have listed: "\<exists>page.
      (image_info.pageNumber r - 1, page, imageIndex r, xref r) \<in> set (candidates doc)"
    if "r \<in> set imgs" for r
  proof -
    from that obtain a where "a \<in> set (take (nat max_images) Q)" and r: "r = fst a"
      by (auto simp add: imgs_def)
    from qualifying_member [OF this(1) [unfolded Q_def]] obtain n page i xr
      where c: "(n, page, i, xr) \<in> set (candidates doc)"
        and p: "process_image env doc page output_dir min_size n i xr = Some a"
      by blast
    from process_image_Some [OF p] r
    have "image_info.pageNumber r = n + 1" "imageIndex r = i" "xref r = xr"
      by auto
    with c show ?thesis by auto
  qed
  have once: "distinct (map xref imgs)" if "distinct (map candidate_xref (candidates doc))"
  proof -
    from that have "distinct (map (\<lambda>a. xref (fst a)) Q)"
      unfolding Q_def qualifying_def
      by (rule distinct_map_filter) (simp add: process_candidate_fields)
    then have "distinct (take (nat max_images) (map (\<lambda>a. xref (fst a)) Q))"
      by (rule distinct_take)
    then show ?thesis
      by (simp add: imgs_def take_map comp_def)
  qed
  from i places listed once show ?thesis by blast
qed

lemma two_doc_success:
  "success (fst (extract_images_from_pdf (sample_env two_doc) [] od mx mn))"
  by (rule extract_images_calls_return [of _ _ two_doc])
    (simp_all add: sample_env_def two_doc_def pages_doc_def calls_return_def)

theorem xref_taken_from_listing_witness:
  "map candidate_xref (candidates two_doc) = [7, 9] \<and>
   success (fst (extract_images_from_pdf (sample_env two_doc) [] None 50 100)) \<and>
   (\<exists>imgs.
     images (fst (extract_images_from_pdf (sample_env two_doc) [] None 50 100)) = Some imgs \<and>
     length imgs = 2 \<and>
     distinct (map (\<lambda>r. (image_info.pageNumber r, imageIndex r)) imgs) \<and>
     (\<exists>page. (image_info.pageNumber (imgs ! 1) - 1, page, imageIndex (imgs ! 1), xref (imgs ! 1))
        \<in> set (candidates two_doc)) \<and>
     distinct (map xref imgs))"
proof -
  have o: "open_doc (sample_env two_doc) [] = Inr two_doc"
    by (simp add: sample_env_def)
  have s: "success (fst (extract_images_from_pdf (sample_env two_doc) [] None 50 100))"
    by (rule two_doc_success)
  have c: "map candidate_xref (candidates two_doc) = [7, 9]"
    by (simp add: candidates_def two_doc_def pages_doc_def page_items_def)
  then have d: "distinct (map candidate_xref (candidates two_doc))"
    by simp
  have l: "map_option length
      (images (fst (extract_images_from_pdf (sample_env two_doc) [] None 50 100))) = Some 2"
    by (simp add: extract_images_from_pdf_def sample_env_def two_doc_def pages_doc_def
        process_image_def sample_extract_def sample_image_def accept_def Let_def)
  from xref_taken_from_listing [OF o s] obtain imgs where
    i: "images (fst (extract_images_from_pdf (sample_env two_doc) [] None 50 100)) = Some imgs"
    and p: "distinct (map (\<lambda>r. (image_info.pageNumber r, imageIndex r)) imgs)"
    and m: "\<forall>r\<in>set imgs. \<exists>page.
        (image_info.pageNumber r - 1, page, imageIndex r, xref r) \<in> set (candidates two_doc)"
    and x: "distinct (map candidate_xref (candidates two_doc)) \<longrightarrow> distinct (map xref imgs)"
    by blast
  from l i have len: "length imgs = 2" by simp
  then have "imgs ! 1 \<in> set imgs" by simp
  with m have "\<exists>page.
      (image_info.pageNumber (imgs ! 1) - 1, page, imageIndex (imgs ! 1), xref (imgs ! 1))
        \<in> set (candidates two_doc)"
    by blast
  moreover from x d have "distinct (map xref imgs)" by blast
  ultimately show ?thesis using c s i len p by blast
qed

text \<open>
  A picture placed on two pages is returned twice, under the same \<open>xref\<close>, although each
  page lists it once.
\<close>

theorem xref_shared_across_pages:
  "get_images sample_page = Inr [Inr 7, Inr 8] \<and>
   doc_pages sample_doc = [Inr sample_page, Inr sample_page] \<and>
   success (fst (extract_images_from_pdf (sample_env sample_doc) [] None 50 100)) \<and>
   map_option (map xref)
     (images (fst (extract_images_from_pdf (sample_env sample_doc) [] None 50 100))) =
     Some [7, 7] \<and>
   \<not> distinct [7, 7 :: int]"
proof -
  have o: "open_doc (sample_env sample_doc) [] = Inr sample_doc"
    by (simp add: sample_env_def)
  have s: "success (fst (extract_images_from_pdf (sample_env sample_doc) [] None 50 100))"
    by (rule sample_doc_success)
  then obtain doc' where "open_doc (sample_env sample_doc) [] = Inr doc'"
    and "images (fst (extract_images_from_pdf (sample_env sample_doc) [] None 50 100)) =
        Some (map fst (take (nat 50) (qualifying (sample_env sample_doc) doc' None 100)))"
    by (rule extract_images_success) simp
  with o have i: "images (fst (extract_images_from_pdf (sample_env sample_doc) [] None 50 100)) =
        Some (map fst (take 50 (qualifying (sample_env sample_doc) sample_doc None 100)))"
    by simp
  have "map xref (map fst (take 50 (qualifying (sample_env sample_doc) sample_doc None 100))) =
      take 50 (map snd (map (\<lambda>a. (image_info.pageNumber (fst a), xref (fst a)))
        (qualifying (sample_env sample_doc) sample_doc None 100)))"
    by (simp add: take_map comp_def)
  also have "\<dots> = [7, 7]"
    unfolding sample_doc_records by simp
  finally have x: "map_option (map xref)
     (images (fst (extract_images_from_pdf (sample_env sample_doc) [] None 50 100))) =
     Some [7, 7]"
    by (simp add: i)
  have "get_images sample_page = Inr [Inr 7, Inr 8]"
    by (simp add: sample_page_def)
  moreover have "doc_pages sample_doc = [Inr sample_page, Inr sample_page]"
    by (simp add: sample_doc_def pages_doc_def)
  ultimately show ?thesis using s x by simp
qed

end
